theory Spec2Isabelle
  imports Main "HOL-Library.AList"
begin

section \<open>knex-migrator: the migration state machine and its integrity check\<close>

text \<open>
  A shallow embedding of \<^verbatim>\<open>lib/index.js\<close>. The repository holds two revisions of that
  file: the locking revision (\<^verbatim>\<open>src/lib/index.js\<close>: \<^verbatim>\<open>lock\<close>, \<^verbatim>\<open>unlock\<close>, one
  transaction around the whole run) and the renewing revision
  (\<^verbatim>\<open>src/unnamed/part_000\<close>: \<^verbatim>\<open>transactional\<close>, which commits and reopens the
  transaction after a task that reports \<^verbatim>\<open>implicitCommits\<close>). Functions that are the
  same in both are embedded once; the renewing revision's own functions carry the
  suffix \<open>_tx\<close>.

  Promises are values: a settled promise is \<open>Resolved a\<close> or \<open>Rejected e\<close>, paired with
  the state the chain has reached. The state inside a transaction is the database as
  the transaction sees it together with the lines written by \<^verbatim>\<open>debug\<close> and
  \<^verbatim>\<open>logging.warn\<close>, kept as a trace.
\<close>

subsection \<open>Errors\<close>

text \<open>
  The classes of \<^verbatim>\<open>lib/errors\<close>, the errors of \<^verbatim>\<open>lib/utils\<close> (told apart by their
  \<^verbatim>\<open>code\<close>), the driver's errors (\<^verbatim>\<open>errno\<close> and \<^verbatim>\<open>code\<close>), the \<^verbatim>\<open>TypeError\<close> of a
  property read on \<^verbatim>\<open>undefined\<close> or \<^verbatim>\<open>null\<close>, and anything else user code throws. A driver's
  error and a thrown error carry their \<^verbatim>\<open>message\<close>, which the handler of a failed task
  reads; a \<open>MigrationScript\<close> error carries its \<^verbatim>\<open>help\<close> and the error it wraps.
  \<open>MigrationExistsError\<close> carries the \<^verbatim>\<open>task\<close> property that \<^verbatim>\<open>errorHandling\<close> of the
  renewing revision attaches.
\<close>

datatype error =
    MigrationExistsError "string option"
  | MigrationScript string error
  | MigrationsAreLocked
  | DatabaseIsNotOkError string
  | UtilsError string
  | DbError nat string string
  | TypeError
  | Thrown string

fun err_code :: "error \<Rightarrow> string" where
  "err_code (DatabaseIsNotOkError c) = c"
| "err_code (UtilsError c) = c"
| "err_code (DbError n c msg) = c"
| "err_code e = []"

fun err_errno :: "error \<Rightarrow> nat option" where
  "err_errno (DbError n c msg) = Some n"
| "err_errno e = None"

fun err_message :: "error \<Rightarrow> string" where
  "err_message (DbError n c msg) = msg"
| "err_message (Thrown msg) = msg"
| "err_message e = []"

fun is_MigrationExistsError :: "error \<Rightarrow> bool" where
  "is_MigrationExistsError (MigrationExistsError t) = True"
| "is_MigrationExistsError e = False"

datatype 'a settled = Resolved 'a | Rejected error

definition then_p :: "'a settled \<times> 's \<Rightarrow> ('a \<Rightarrow> 's \<Rightarrow> 'b settled \<times> 's) \<Rightarrow> 'b settled \<times> 's" where
  "then_p p f = (case p of (Resolved a, s) \<Rightarrow> f a s | (Rejected e, s) \<Rightarrow> (Rejected e, s))"

definition catch_p :: "'a settled \<times> 's \<Rightarrow> (error \<Rightarrow> 's \<Rightarrow> 'a settled \<times> 's) \<Rightarrow> 'a settled \<times> 's" where
  "catch_p p h = (case p of (Resolved a, s) \<Rightarrow> (Resolved a, s) | (Rejected e, s) \<Rightarrow> h e s)"

subsection \<open>The database\<close>

text \<open>
  The two bookkeeping tables of \<^verbatim>\<open>createMigrationsTable\<close> and \<^verbatim>\<open>ensureLockTable\<close>, and
  the user's own tables. A table that does not exist is \<open>None\<close>. The auto-increment
  \<^verbatim>\<open>id\<close> of a ledger row is its position in the list. Timestamps are numbers.
\<close>

record migration_row =
  row_name :: string
  row_version :: string
  row_currentVersion :: string

record lock_row =
  lock_key :: string
  acquired_at :: "nat option"
  released_at :: "nat option"

record database =
  migrations :: "migration_row list option"
  migrations_lock :: "lock_row list option"
  tables :: "(string \<times> string list) list"

text \<open>The driver's rejection of a query on a missing table (MySQL 1146; sqlite reports 1).\<close>

definition no_such_table :: error where
  "no_such_table = DbError 1146 ''ER_NO_SUCH_TABLE'' []"

definition select_migrations :: "database \<Rightarrow> error + migration_row list" where
  "select_migrations d = (case migrations d of None \<Rightarrow> Inl no_such_table | Some rows \<Rightarrow> Inr rows)"

definition insert_migration :: "migration_row \<Rightarrow> database \<Rightarrow> error + database" where
  "insert_migration r d =
     (case migrations d of None \<Rightarrow> Inl no_such_table
      | Some rows \<Rightarrow> Inr (d\<lparr>migrations := Some (rows @ [r])\<rparr>))"

subsection \<open>Tasks, hooks, the filesystem and the migrator object\<close>

record response =
  implicitCommits :: bool

text \<open>
  \<^verbatim>\<open>task.execute({transacting})\<close> and the hook modules are user code: functions of the
  database seen through the transaction, leaving a database behind also when they
  reject. A task resolves with a response object or with nothing.
\<close>

record task =
  task_name :: string
  execute :: "database \<Rightarrow> response option settled \<times> database"

type_synonym hook = "database \<Rightarrow> unit settled \<times> database"

record hooks =
  before :: "hook option"
  after :: "hook option"
  beforeEach :: "hook option"
  afterEach :: "hook option"
  shutdown :: "unit settled option"

definition no_hooks :: hooks where
  "no_hooks = \<lparr>before = None, after = None, beforeEach = None, afterEach = None, shutdown = None\<rparr>"

text \<open>
  What \<^verbatim>\<open>utils.readTasks\<close> and \<^verbatim>\<open>utils.readFolders\<close> find on disk: the tasks of
  \<^verbatim>\<open>migrationPath/init\<close>, the folder names under \<^verbatim>\<open>migrationPath/subfolder\<close> and the
  tasks of \<^verbatim>\<open>migrationPath/subfolder/<name>\<close>; \<open>None\<close> where the directory is missing.
\<close>

record filesystem =
  init_dir :: "task list option"
  versions_dir :: "string list option"
  version_dir :: "string \<Rightarrow> task list option"

text \<open>
  Modelled from the spec: \<^verbatim>\<open>utils.readTasks\<close> and \<^verbatim>\<open>utils.readFolders\<close> are not in the
  sources. Task discovery gives the ordered tasks of one directory and fails with the
  code \<^verbatim>\<open>MIGRATION_PATH\<close> when the directory does not exist; listing the version folders
  fails with the code \<^verbatim>\<open>READ_FOLDERS\<close> when the versions root does not exist. The codes
  are the ones the callers test.
\<close>

definition readTasks_init :: "filesystem \<Rightarrow> error + task list" where
  "readTasks_init fs = (case init_dir fs of None \<Rightarrow> Inl (UtilsError ''MIGRATION_PATH'') | Some ts \<Rightarrow> Inr ts)"

definition readTasks_version :: "filesystem \<Rightarrow> string \<Rightarrow> error + task list" where
  "readTasks_version fs v = (case version_dir fs v of None \<Rightarrow> Inl (UtilsError ''MIGRATION_PATH'') | Some ts \<Rightarrow> Inr ts)"

definition readFolders :: "filesystem \<Rightarrow> error + string list" where
  "readFolders fs = (case versions_dir fs of None \<Rightarrow> Inl (UtilsError ''READ_FOLDERS'') | Some fds \<Rightarrow> Inr fds)"

text \<open>The fields of the \<^verbatim>\<open>KnexMigrator\<close> object the run reads, and the clock of \<^verbatim>\<open>new Date()\<close>.\<close>

record migrator =
  currentVersion :: string
  init_hooks :: hooks
  migrate_hooks :: hooks
  clock :: nat

subsection \<open>Version comparison\<close>

definition is_digit :: "char \<Rightarrow> bool" where
  "is_digit c \<longleftrightarrow> c \<in> set ''0123456789''"

definition is_version_char :: "char \<Rightarrow> bool" where
  "is_version_char c \<longleftrightarrow> is_digit c \<or> c = CHR ''.'' \<or> c = CHR ''_''"

text \<open>\<^verbatim>\<open>folder.match(/([\d._]+)/)[0]\<close>: the first run of digits, dots and underscores.\<close>

definition match_version :: "string \<Rightarrow> string option" where
  "match_version folder =
     (let run = takeWhile is_version_char (dropWhile (\<lambda>c. \<not> is_version_char c) folder)
      in if run = [] then None else Some run)"

definition digit_val :: "char \<Rightarrow> nat" where
  "digit_val c = of_char c - 48"

definition digits_val :: "string \<Rightarrow> nat" where
  "digits_val s = foldl (\<lambda>n c. 10 * n + digit_val c) 0 s"

fun split_components :: "string \<Rightarrow> string \<Rightarrow> string list" where
  "split_components acc [] = [acc]"
| "split_components acc (c # cs) =
     (if is_digit c then split_components (acc @ [c]) cs else acc # split_components [] cs)"

text \<open>
  Modelled from the spec: \<^verbatim>\<open>utils.isGreaterThanVersion\<close> is not in the sources. A
  version is a dot/underscore-separated sequence of numeric components, read from the
  leading numeric run of the string; two versions are compared component by component
  from the left, a missing trailing component counting as zero. The call
  \<^verbatim>\<open>isGreaterThanVersion({smallerVersion: a, greaterVersion: b})\<close> says whether \<open>b\<close> is
  strictly greater than \<open>a\<close>: the caller's comment on future versions fixes the
  direction. A string with no numeric run, and the absent baseline of a database that
  was never initialised, have no component.
\<close>

definition version_components :: "string \<Rightarrow> nat list" where
  "version_components s =
     (case match_version s of None \<Rightarrow> [] | Some run \<Rightarrow> map digits_val (split_components [] run))"

fun components_gt :: "nat list \<Rightarrow> nat list \<Rightarrow> bool" where
  "components_gt [] ys = False"
| "components_gt (x # xs) [] = (0 < x \<or> components_gt xs [])"
| "components_gt (x # xs) (y # ys) = (y < x \<or> (x = y \<and> components_gt xs ys))"

definition isGreaterThanVersion :: "string \<Rightarrow> string \<Rightarrow> bool" where
  "isGreaterThanVersion smallerVersion greaterVersion =
     components_gt (version_components greaterVersion) (version_components smallerVersion)"

subsection \<open>Objects keyed by version\<close>

text \<open>
  \<^verbatim>\<open>operations\<close> and \<^verbatim>\<open>toReturn\<close> are objects keyed by version: association lists,
  \<open>AList.update\<close> for an assignment and \<open>AList.delete\<close> for \<^verbatim>\<open>delete\<close>. JavaScript
  enumerates the keys that are array indices first, in ascending numeric order, and the
  other keys in insertion order; \<^verbatim>\<open>_.each\<close> and \<^verbatim>\<open>Promise.props\<close> follow that order.
\<close>

definition is_array_index :: "string \<Rightarrow> bool" where
  "is_array_index k \<longleftrightarrow>
     k \<noteq> [] \<and> list_all is_digit k \<and> (k = ''0'' \<or> hd k \<noteq> CHR ''0'') \<and> digits_val k < 4294967295"

definition own_keys_order :: "(string \<times> 'v) list \<Rightarrow> (string \<times> 'v) list" where
  "own_keys_order obj =
     sort_key (\<lambda>kv. digits_val (fst kv)) (filter (\<lambda>kv. is_array_index (fst kv)) obj)
     @ filter (\<lambda>kv. \<not> is_array_index (fst kv)) obj"

subsection \<open>integrityCheck\<close>

record counts =
  expected :: nat
  actual :: nat

type_synonym integrity_result = "(string \<times> counts) list"

fun onMigrationsLookupError :: "error \<Rightarrow> error" where
  "onMigrationsLookupError err =
     (if err_errno err = Some 1046 then DatabaseIsNotOkError ''DB_NOT_INITIALISED''
      else if err_errno err = Some 1049 then DatabaseIsNotOkError ''DB_NOT_INITIALISED''
      else if err_errno err = Some 1 \<or> err_errno err = Some 1146
        then DatabaseIsNotOkError ''MIGRATION_TABLE_IS_MISSING''
      else err)"

definition where_version :: "database \<Rightarrow> string \<Rightarrow> error + migration_row list" where
  "where_version d v =
     (case select_migrations d of
        Inl err \<Rightarrow> Inl (onMigrationsLookupError err)
      | Inr rows \<Rightarrow> Inr (filter (\<lambda>r. row_version r = v) rows))"

record folder_scan =
  futureVersions :: "string list"
  operations :: "(string \<times> (error + migration_row list)) list"
  warnings :: "string list"

text \<open>The body of the first \<^verbatim>\<open>_.each(folders, ...)\<close>.\<close>

definition scan_folder :: "migrator \<Rightarrow> bool \<Rightarrow> database \<Rightarrow> folder_scan \<Rightarrow> string \<Rightarrow> folder_scan" where
  "scan_folder m force d sc folder =
     (case (if folder \<noteq> ''init'' then match_version folder else Some folder) of
        None \<Rightarrow> sc\<lparr>warnings := warnings sc @ [''Cannot parse folder name.'', ''Ignore Folder: '' @ folder]\<rparr>
      | Some key \<Rightarrow>
          sc\<lparr>futureVersions :=
               (if currentVersion m \<noteq> [] \<and> \<not> force \<and> isGreaterThanVersion (currentVersion m) key
                then futureVersions sc @ [key] else futureVersions sc),
             operations := AList.update key (where_version d key) (operations sc)\<rparr>)"

definition folders_of :: "filesystem \<Rightarrow> string list" where
  "folders_of fs = ''init'' # (case readFolders fs of Inl err \<Rightarrow> [] | Inr fds \<Rightarrow> fds)"

definition scan_folders :: "migrator \<Rightarrow> filesystem \<Rightarrow> bool \<Rightarrow> database \<Rightarrow> folder_scan" where
  "scan_folders m fs force d =
     foldl (scan_folder m force d) \<lparr>futureVersions = [], operations = [], warnings = []\<rparr> (folders_of fs)"

text \<open>\<^verbatim>\<open>Promise.props(operations)\<close>: rejected by the first rejected query.\<close>

fun props :: "(string \<times> (error + 'a)) list \<Rightarrow> error + (string \<times> 'a) list" where
  "props [] = Inr []"
| "props ((k, Inl err) # rest) = Inl err"
| "props ((k, Inr v) # rest) = (case props rest of Inl err \<Rightarrow> Inl err | Inr vs \<Rightarrow> Inr ((k, v) # vs))"

text \<open>
  The body of \<^verbatim>\<open>_.each(result, ...)\<close>, with \<^verbatim>\<open>currentVersionInitTask\<close> passed along; it is
  \<^verbatim>\<open>undefined\<close> before the init entry is met and \<^verbatim>\<open>0\<close> when there is no init row, both
  the absent baseline \<open>[]\<close>.
\<close>

definition expected_of :: "filesystem \<Rightarrow> string \<Rightarrow> string \<Rightarrow> nat \<Rightarrow> error + nat" where
  "expected_of fs currentVersionInitTask version actual_rows =
     (if version \<noteq> ''init'' then
        (if isGreaterThanVersion currentVersionInitTask version
         then (case readTasks_version fs version of Inl err \<Rightarrow> Inl err | Inr ts \<Rightarrow> Inr (length ts))
         else Inr actual_rows)
      else (case readTasks_init fs of Inl err \<Rightarrow> Inl err | Inr ts \<Rightarrow> Inr (length ts)))"

definition init_baseline :: "migration_row list \<Rightarrow> string" where
  "init_baseline rows = (case rows of [] \<Rightarrow> [] | r # rs \<Rightarrow> row_currentVersion r)"

fun count_versions :: "filesystem \<Rightarrow> string \<Rightarrow> integrity_result \<Rightarrow> (string \<times> migration_row list) list \<Rightarrow> error + integrity_result" where
  "count_versions fs cur toReturn [] = Inr toReturn"
| "count_versions fs cur toReturn ((version, rows) # rest) =
     (let cur' = (if version = ''init'' then init_baseline rows else cur)
      in case expected_of fs cur' version (length rows) of
           Inl err \<Rightarrow> Inl err
         | Inr e \<Rightarrow>
             count_versions fs cur' (AList.update version \<lparr>expected = e, actual = length rows\<rparr> toReturn) rest)"

definition skip_warnings :: "string \<Rightarrow> string list" where
  "skip_warnings futureVersion =
     [''knex-migrator is skipping '' @ futureVersion,
      ''Current version in MigratorConfig.js is smaller then requested version, use --force to proceed!'',
      ''Please run `knex-migrator migrate --v '' @ futureVersion @ '' --force` to proceed!'']"

text \<open>
  The body of \<^verbatim>\<open>_.each(futureVersions, ...)\<close>; reading \<^verbatim>\<open>.actual\<close> of an entry deleted
  before is a \<^verbatim>\<open>TypeError\<close>.
\<close>

fun drop_future :: "integrity_result \<Rightarrow> string list \<Rightarrow> string list \<Rightarrow> (error + integrity_result) \<times> string list" where
  "drop_future toReturn ws [] = (Inr toReturn, ws)"
| "drop_future toReturn ws (futureVersion # rest) =
     (case map_of toReturn futureVersion of
        None \<Rightarrow> (Inl TypeError, ws)
      | Some c \<Rightarrow>
          (if actual c \<noteq> expected c
           then drop_future (AList.delete futureVersion toReturn) (ws @ skip_warnings futureVersion) rest
           else drop_future toReturn ws rest))"

definition toReturn_counts :: "migrator \<Rightarrow> filesystem \<Rightarrow> bool \<Rightarrow> database \<Rightarrow> error + integrity_result" where
  "toReturn_counts m fs force d =
     (case props (operations (scan_folders m fs force d)) of
        Inl err \<Rightarrow> Inl err
      | Inr result \<Rightarrow> count_versions fs [] [] (own_keys_order result))"

definition integrityCheck :: "migrator \<Rightarrow> filesystem \<Rightarrow> bool \<Rightarrow> database \<Rightarrow> (error + integrity_result) \<times> string list" where
  "integrityCheck m fs force d =
     (let sc = scan_folders m fs force d
      in case toReturn_counts m fs force d of
           Inl err \<Rightarrow> (Inl err, warnings sc)
         | Inr toReturn \<Rightarrow> drop_future toReturn (warnings sc) (futureVersions sc))"

subsection \<open>isDatabaseOK\<close>

definition check_init :: "integrity_result \<Rightarrow> unit settled" where
  "check_init result =
     (case map_of result ''init'' of
        None \<Rightarrow> Resolved ()
      | Some c \<Rightarrow>
          (if actual c < expected c then Rejected (DatabaseIsNotOkError ''DB_NOT_INITIALISED'')
           else Resolved ()))"

text \<open>The body of \<^verbatim>\<open>_.each(_.omit(result, 'init'), ...)\<close>: the first throw ends the loop.\<close>

fun check_versions :: "integrity_result \<Rightarrow> unit settled" where
  "check_versions [] = Resolved ()"
| "check_versions ((version, c) # rest) =
     (if actual c < expected c then Rejected (DatabaseIsNotOkError ''DB_NEEDS_MIGRATION'')
      else if expected c < actual c then Rejected (DatabaseIsNotOkError ''MIGRATION_STATE_ERROR'')
      else check_versions rest)"

definition check_result :: "integrity_result \<Rightarrow> unit settled" where
  "check_result result =
     (case check_init result of
        Rejected err \<Rightarrow> Rejected err
      | Resolved u \<Rightarrow> check_versions (own_keys_order (AList.delete ''init'' result)))"

definition isDatabaseOK :: "migrator \<Rightarrow> filesystem \<Rightarrow> database \<Rightarrow> unit settled" where
  "isDatabaseOK m fs d =
     (case fst (integrityCheck m fs False d) of
        Inl err \<Rightarrow> Rejected err
      | Inr result \<Rightarrow> check_result result)"

subsection \<open>The state of a run\<close>

text \<open>
  The trace holds one event for each \<^verbatim>\<open>debug\<close>, \<^verbatim>\<open>logging.warn\<close> and \<^verbatim>\<open>console.log\<close> line
  the claims speak about: \<open>Lock\<close> for \<^verbatim>\<open>debug('Lock.')\<close>, \<open>Unlock\<close> for
  \<^verbatim>\<open>debug('Unlock.')\<close>, \<open>Running n\<close> for \<^verbatim>\<open>debug('Running:' + task.name)\<close>, written just
  before the task body is called, \<open>Skipping n\<close> for \<^verbatim>\<open>debug('Skipping:' + task.name)\<close>.
\<close>

datatype event =
    Lock
  | LockData "lock_row list"
  | Unlock
  | BeforeHook
  | AfterHook
  | MigrateTo string nat
  | Running string
  | Skipping string
  | Warn string
  | RenewTransaction
  | InitComplete
  | ShutdownHook
  | DestroyConnection

record run_state =
  db :: database
  trace :: "event list"

definition emit :: "event list \<Rightarrow> run_state \<Rightarrow> run_state" where
  "emit evs st = st\<lparr>trace := trace st @ evs\<rparr>"

definition query :: "(database \<Rightarrow> error + 'a) \<Rightarrow> run_state \<Rightarrow> 'a settled \<times> run_state" where
  "query q st = (case q (db st) of Inl err \<Rightarrow> (Rejected err, st) | Inr a \<Rightarrow> (Resolved a, st))"

definition statement :: "(database \<Rightarrow> error + database) \<Rightarrow> run_state \<Rightarrow> unit settled \<times> run_state" where
  "statement q st = (case q (db st) of Inl err \<Rightarrow> (Rejected err, st) | Inr d \<Rightarrow> (Resolved (), st\<lparr>db := d\<rparr>))"

definition user_code :: "(database \<Rightarrow> 'a settled \<times> database) \<Rightarrow> run_state \<Rightarrow> 'a settled \<times> run_state" where
  "user_code f st = (case f (db st) of (r, d) \<Rightarrow> (r, st\<lparr>db := d\<rparr>))"

definition run_hook :: "hook option \<Rightarrow> event list \<Rightarrow> run_state \<Rightarrow> unit settled \<times> run_state" where
  "run_hook h evs st = (case h of None \<Rightarrow> (Resolved (), st) | Some f \<Rightarrow> user_code f (emit evs st))"

subsection \<open>lock and unlock (locking revision)\<close>

definition select_lock :: "database \<Rightarrow> error + lock_row list" where
  "select_lock d =
     (case migrations_lock d of None \<Rightarrow> Inl no_such_table
      | Some rows \<Rightarrow> Inr (filter (\<lambda>r. lock_key r = ''km01'') rows))"

text \<open>
  \<^verbatim>\<open>lock\<close> reads the sentinel row \<^verbatim>\<open>forUpdate\<close> and prints it; the branch that would
  throw \<^verbatim>\<open>MigrationsAreLocked\<close> or write \<^verbatim>\<open>acquired_at\<close> is inside a comment.
\<close>

definition lock :: "run_state \<Rightarrow> unit settled \<times> run_state" where
  "lock st = then_p (query select_lock (emit [Lock] st)) (\<lambda>data st'. (Resolved (), emit [LockData data] st'))"

definition update_released_at :: "nat \<Rightarrow> database \<Rightarrow> error + database" where
  "update_released_at now d =
     (case migrations_lock d of None \<Rightarrow> Inl no_such_table
      | Some rows \<Rightarrow> Inr (d\<lparr>migrations_lock := Some (map (\<lambda>r. r\<lparr>released_at := Some now\<rparr>) rows)\<rparr>))"

definition unlock :: "migrator \<Rightarrow> run_state \<Rightarrow> unit settled \<times> run_state" where
  "unlock m st = statement (update_released_at (clock m)) (emit [Unlock] st)"

subsection \<open>beforeEachTask and afterEachTask\<close>

definition beforeEachTask :: "string \<Rightarrow> string \<Rightarrow> run_state \<Rightarrow> unit settled \<times> run_state" where
  "beforeEachTask task_n version st =
     then_p (query select_migrations st)
       (\<lambda>rows st'.
          if rows = [] then (Resolved (), st')
          else if list_ex (\<lambda>r. row_name r = task_n \<and> row_version r = version) rows
            then (Rejected (MigrationExistsError None), st')
          else (Resolved (), st'))"

definition afterEachTask :: "migrator \<Rightarrow> string \<Rightarrow> string \<Rightarrow> run_state \<Rightarrow> unit settled \<times> run_state" where
  "afterEachTask m task_n version st =
     statement (insert_migration
       \<lparr>row_name = task_n, row_version = version, row_currentVersion = currentVersion m\<rparr>) st"

subsection \<open>migrateTo (locking revision)\<close>

text \<open>\<^verbatim>\<open>options.only || null\<close>: the number 0 is falsy.\<close>

definition or_null :: "nat option \<Rightarrow> nat option" where
  "or_null x = (case x of None \<Rightarrow> None | Some n \<Rightarrow> if n = 0 then None else Some n)"

definition read_tasks_for :: "filesystem \<Rightarrow> string \<Rightarrow> error + task list" where
  "read_tasks_for fs version =
     (if version \<noteq> ''init'' then readTasks_version fs version
      else (case readTasks_init fs of
              Inl err \<Rightarrow> if err_code err = ''MIGRATION_PATH'' then Inr [] else Inl err
            | Inr ts \<Rightarrow> Inr ts))"

text \<open>
  \<^verbatim>\<open>tasks = [tasks[only - 1]]\<close> may hold \<^verbatim>\<open>undefined\<close>, here \<open>None\<close>;
  \<^verbatim>\<open>tasks.splice(skip - 1, 1)\<close> removes nothing beyond the end.
\<close>

definition select_tasks :: "nat option \<Rightarrow> nat option \<Rightarrow> task list \<Rightarrow> task option list" where
  "select_tasks only skip tasks =
     (case or_null only of
        Some n \<Rightarrow> [if n - 1 < length tasks then Some (tasks ! (n - 1)) else None]
      | None \<Rightarrow>
          (case or_null skip of
             Some k \<Rightarrow> map Some (take (k - 1) tasks @ drop k tasks)
           | None \<Rightarrow> map Some tasks))"

text \<open>
  \<^verbatim>\<open>err.message.match(/`\w+`/g)\<close>: the runs of word characters between two backticks,
  from left to right; \<^verbatim>\<open>null\<close>, here the empty list, when there is none.
\<close>

definition is_word_char :: "char \<Rightarrow> bool" where
  "is_word_char c \<longleftrightarrow> c \<in> set ''abcdefghijklmnopqrstuvwxyzABCDEFGHIJKLMNOPQRSTUVWXYZ0123456789_''"

function match_backticked :: "string \<Rightarrow> string list" where
  "match_backticked [] = []"
| "match_backticked (c # cs) =
     (if c = CHR ''`'' \<and> takeWhile is_word_char cs \<noteq> []
         \<and> dropWhile is_word_char cs \<noteq> [] \<and> hd (dropWhile is_word_char cs) = CHR ''`''
      then (c # takeWhile is_word_char cs @ ''`'') # match_backticked (tl (dropWhile is_word_char cs))
      else match_backticked cs)"
  by pat_completeness auto

termination
proof (relation "measure length")
  show "wf (measure length)"
    by simp
next
  fix c :: char and cs :: string
  have "length (tl (dropWhile is_word_char cs)) \<le> length (dropWhile is_word_char cs)"
    by simp
  also have "\<dots> \<le> length cs"
    by (rule length_dropWhile_le)
  finally show "(tl (dropWhile is_word_char cs), c # cs) \<in> measure length"
    by simp
next
  fix c :: char and cs :: string
  show "(cs, c # cs) \<in> measure length"
    by simp
qed

text \<open>
  The \<^verbatim>\<open>catch\<close> at the end of each task's chain (\<^verbatim>\<open>errorHandling\<close> in the renewing
  revision): every failure other than \<^verbatim>\<open>MigrationExistsError\<close> becomes a
  \<^verbatim>\<open>MigrationScript\<close> error, whose help names the task or, for \<^verbatim>\<open>ER_TOO_LONG_KEY\<close>,
  the issue to read. In that case the table is \<^verbatim>\<open>match[0]\<close>, a \<^verbatim>\<open>TypeError\<close> when the message
  holds no backticked name; a field \<^verbatim>\<open>match[2]\<close> that is missing is \<^verbatim>\<open>undefined\<close> and only
  changes the message text.
\<close>

definition script_error :: "task \<Rightarrow> error \<Rightarrow> error" where
  "script_error t err =
     (if err_code err = ''ER_TOO_LONG_KEY''
      then (if match_backticked (err_message err) = [] then TypeError
            else MigrationScript (''Read more here: https://github.com/TryGhost/knex-migrator/issues/51'' @ [CHR 0x0A]) err)
      else MigrationScript (''Error occurred while executing the following migration: '' @ task_name t) err)"

definition task_chain :: "migrator \<Rightarrow> hooks \<Rightarrow> string \<Rightarrow> task \<Rightarrow> run_state \<Rightarrow> unit settled \<times> run_state" where
  "task_chain m hks version t st =
     then_p (then_p (then_p (then_p
       (beforeEachTask (task_name t) version st)
       (\<lambda>u. run_hook (beforeEach hks) []))
       (\<lambda>u st'. user_code (execute t) (emit [Running (task_name t)] st')))
       (\<lambda>taskResponse. afterEachTask m (task_name t) version))
       (\<lambda>u. run_hook (afterEach hks) [])"

definition executeTask :: "migrator \<Rightarrow> hooks \<Rightarrow> string \<Rightarrow> task option \<Rightarrow> run_state \<times> string list
    \<Rightarrow> unit settled \<times> run_state \<times> string list" where
  "executeTask m hks version task_opt s =
     (case task_opt of
        None \<Rightarrow> (Rejected TypeError, s)
      | Some t \<Rightarrow>
          (case task_chain m hks version t (fst s) of
             (Resolved u, st') \<Rightarrow> (Resolved (), st', snd s)
           | (Rejected err, st') \<Rightarrow>
               (if is_MigrationExistsError err
                then (Resolved (), emit [Skipping (task_name t)] st', snd s @ [task_name t])
                else (Rejected (script_error t err), st', snd s))))"

text \<open>\<^verbatim>\<open>Promise.each\<close>: one element after the other, ended by the first rejection.\<close>

fun each_p :: "('a \<Rightarrow> 's \<Rightarrow> unit settled \<times> 's) \<Rightarrow> 'a list \<Rightarrow> 's \<Rightarrow> unit settled \<times> 's" where
  "each_p f [] s = (Resolved (), s)"
| "each_p f (x # xs) s =
     (case f x s of (Resolved u, s') \<Rightarrow> each_p f xs s' | (Rejected err, s') \<Rightarrow> (Rejected err, s'))"

text \<open>
  The completion of an init run: a ledger row for every task file of every version
  folder, unless a row of that name is there; the task is not executed.
\<close>

definition name_exists :: "string \<Rightarrow> database \<Rightarrow> error + bool" where
  "name_exists n d =
     (case select_migrations d of Inl err \<Rightarrow> Inl err
      | Inr rows \<Rightarrow> Inr (filter (\<lambda>r. row_name r = n) rows \<noteq> []))"

definition backfill_file :: "migrator \<Rightarrow> string \<Rightarrow> task \<Rightarrow> run_state \<Rightarrow> unit settled \<times> run_state" where
  "backfill_file m versionToMigrateTo fileToMigrateTo st =
     then_p (query (name_exists (task_name fileToMigrateTo)) st)
       (\<lambda>migrationExists.
          if migrationExists then Pair (Resolved ())
          else statement (insert_migration
            \<lparr>row_name = task_name fileToMigrateTo, row_version = versionToMigrateTo,
             row_currentVersion = currentVersion m\<rparr>))"

definition backfill_version :: "migrator \<Rightarrow> filesystem \<Rightarrow> string \<Rightarrow> run_state \<Rightarrow> unit settled \<times> run_state" where
  "backfill_version m fs versionToMigrateTo st =
     (case readTasks_version fs versionToMigrateTo of
        Inl err \<Rightarrow> (Rejected err, st)
      | Inr filesToMigrateTo \<Rightarrow> each_p (backfill_file m versionToMigrateTo) filesToMigrateTo st)"

definition backfill :: "migrator \<Rightarrow> filesystem \<Rightarrow> string list \<Rightarrow> run_state \<Rightarrow> unit settled \<times> run_state" where
  "backfill m fs versionsToMigrateTo st = each_p (backfill_version m fs) versionsToMigrateTo st"

record migrateTo_options =
  mt_version :: string
  mt_only :: "nat option"
  mt_skip :: "nat option"
  mt_hooks :: hooks

definition migrateTo :: "migrator \<Rightarrow> filesystem \<Rightarrow> migrateTo_options \<Rightarrow> run_state \<Rightarrow> unit settled \<times> run_state" where
  "migrateTo m fs opts st =
     (case read_tasks_for fs (mt_version opts) of
        Inl err \<Rightarrow> (Rejected err, st)
      | Inr all_tasks \<Rightarrow>
          (let tasks = select_tasks (mt_only opts) (mt_skip opts) all_tasks
           in case each_p (executeTask m (mt_hooks opts) (mt_version opts)) tasks
                     (emit [MigrateTo (mt_version opts) (length tasks)] st, [])
              of (Rejected err, st', skippedTasks) \<Rightarrow> (Rejected err, st')
               | (Resolved u, st', skippedTasks) \<Rightarrow>
                   (if mt_version opts \<noteq> ''init'' \<or> (mt_version opts = ''init'' \<and> skippedTasks \<noteq> [])
                    then (Resolved (), st')
                    else (case readFolders fs of
                            Inl err \<Rightarrow>
                              if err_code err = ''READ_FOLDERS'' then (Resolved (), st') else (Rejected err, st')
                          | Inr versionsToMigrateTo \<Rightarrow> backfill m fs versionsToMigrateTo st'))))"

subsection \<open>Transactions and the end of a run (locking revision)\<close>

text \<open>
  \<^verbatim>\<open>connection.transaction(callback)\<close> with a callback that returns a promise: knex
  commits when it resolves and rolls back when it rejects. The state handed on holds
  the committed database.
\<close>

definition createTransaction :: "(run_state \<Rightarrow> unit settled \<times> run_state) \<Rightarrow> run_state \<Rightarrow> unit settled \<times> run_state" where
  "createTransaction callback st =
     (case callback st of
        (Resolved u, st') \<Rightarrow> (Resolved u, st')
      | (Rejected err, st') \<Rightarrow> (Rejected err, st'\<lparr>db := db st\<rparr>))"

text \<open>
  The \<^verbatim>\<open>finally\<close> of \<^verbatim>\<open>init\<close> and \<^verbatim>\<open>migrate\<close>: the shutdown hook, then the connection is
  destroyed; a rejecting shutdown hook replaces the outcome.
\<close>

definition finally_p :: "hooks \<Rightarrow> unit settled \<times> run_state \<Rightarrow> unit settled \<times> run_state" where
  "finally_p hks p =
     (case shutdown hks of
        None \<Rightarrow> (fst p, emit [DestroyConnection] (snd p))
      | Some (Resolved u) \<Rightarrow> (fst p, emit [ShutdownHook, DestroyConnection] (snd p))
      | Some (Rejected err) \<Rightarrow> (Rejected err, emit [ShutdownHook] (snd p)))"

text \<open>The handler both runs end with: unlock and rethrow, unless the error is \<^verbatim>\<open>MigrationsAreLocked\<close>.\<close>

definition unlock_and_rethrow :: "migrator \<Rightarrow> error \<Rightarrow> run_state \<Rightarrow> unit settled \<times> run_state" where
  "unlock_and_rethrow m err st =
     (if err = MigrationsAreLocked then (Rejected err, st)
      else then_p (unlock m st) (\<lambda>u st'. (Rejected err, st')))"

subsection \<open>init (locking revision)\<close>

record init_options =
  io_skip :: "nat option"
  io_only :: "nat option"
  io_disableHooks :: bool
  io_noScripts :: bool

definition createMigrationsTable :: "run_state \<Rightarrow> unit settled \<times> run_state" where
  "createMigrationsTable st =
     catch_p (then_p (query select_migrations st) (\<lambda>rows. Pair (Resolved ())))
       (\<lambda>err st'.
          if err_errno err = Some 1 \<or> err_errno err = Some 1146
          then (Resolved (), st'\<lparr>db := (db st')\<lparr>migrations := Some []\<rparr>\<rparr>)
          else (Rejected err, st'))"

definition ensureLockTable :: "run_state \<Rightarrow> unit settled \<times> run_state" where
  "ensureLockTable st =
     (case migrations_lock (db st) of
        Some rows \<Rightarrow> (Resolved (), st)
      | None \<Rightarrow>
          (Resolved (),
           st\<lparr>db := (db st)\<lparr>migrations_lock :=
                  Some [\<lparr>lock_key = ''km01'', acquired_at = None, released_at = None\<rparr>]\<rparr>\<rparr>))"

definition init_tasks :: "migrator \<Rightarrow> filesystem \<Rightarrow> init_options \<Rightarrow> hooks \<Rightarrow> run_state \<Rightarrow> unit settled \<times> run_state" where
  "init_tasks m fs options hks transacting =
     catch_p
       (then_p (then_p (then_p (then_p
          (lock transacting)
          (\<lambda>u. run_hook (before hks) [BeforeHook]))
          (\<lambda>u. migrateTo m fs
                  \<lparr>mt_version = ''init'', mt_only = io_only options, mt_skip = io_skip options,
                   mt_hooks = no_hooks\<rparr>))
          (\<lambda>u. run_hook (after hks) [AfterHook]))
          (\<lambda>u. unlock m))
       (unlock_and_rethrow m)"

definition init :: "migrator \<Rightarrow> filesystem \<Rightarrow> init_options \<Rightarrow> run_state \<Rightarrow> unit settled \<times> run_state" where
  "init m fs options st =
     (let hks = (if io_disableHooks options then no_hooks else init_hooks m)
      in finally_p hks
           (if io_noScripts options then (Resolved (), st)
            else then_p (then_p (createMigrationsTable st)
                   (\<lambda>u. ensureLockTable))
                   (\<lambda>u. createTransaction (init_tasks m fs options hks))))"

subsection \<open>migrate (locking revision)\<close>

record migrate_options =
  mo_version :: "string option"
  mo_only :: "nat option"
  mo_force :: bool
  mo_init :: bool

definition integrityCheck_p :: "migrator \<Rightarrow> filesystem \<Rightarrow> bool \<Rightarrow> run_state \<Rightarrow> integrity_result settled \<times> run_state" where
  "integrityCheck_p m fs force st =
     (case integrityCheck m fs force (db st) of
        (Inl err, ws) \<Rightarrow> (Rejected err, emit (map Warn ws) st)
      | (Inr result, ws) \<Rightarrow> (Resolved result, emit (map Warn ws) st))"

text \<open>The second \<^verbatim>\<open>_.each(result, ...)\<close>: every version whose counts differ, in key order.\<close>

definition versionsToMigrate :: "integrity_result \<Rightarrow> string list" where
  "versionsToMigrate result =
     map fst (filter (\<lambda>kv. expected (snd kv) \<noteq> actual (snd kv)) (own_keys_order result))"

definition truthy :: "string option \<Rightarrow> bool" where
  "truthy v = (case v of None \<Rightarrow> False | Some x \<Rightarrow> x \<noteq> [])"

text \<open>\<^verbatim>\<open>if (onlyFile && !onlyVersion) onlyFile = null\<close>.\<close>

definition onlyFile :: "migrate_options \<Rightarrow> nat option" where
  "onlyFile options =
     (if or_null (mo_only options) \<noteq> None \<and> \<not> truthy (mo_version options) then None
      else mo_only options)"

text \<open>
  The first \<^verbatim>\<open>_.each(result, ...)\<close> only returns from its callback, so it selects nothing;
  the check for the requested version warns and goes on.
\<close>

definition find_requested :: "migrate_options \<Rightarrow> integrity_result \<Rightarrow> run_state \<Rightarrow> string list settled \<times> run_state" where
  "find_requested options result st =
     (Resolved (versionsToMigrate result),
      (case mo_version options of
         None \<Rightarrow> st
       | Some onlyVersion \<Rightarrow>
           if onlyVersion \<noteq> [] \<and> map_of result onlyVersion = None
           then emit [Warn (''Cannot find requested version: '' @ onlyVersion)] st
           else st))"

definition migrate_tasks :: "migrator \<Rightarrow> filesystem \<Rightarrow> migrate_options \<Rightarrow> hooks \<Rightarrow> run_state \<Rightarrow> unit settled \<times> run_state" where
  "migrate_tasks m fs options hks transacting =
     catch_p
       (then_p (then_p (then_p (then_p (then_p (then_p
          (lock transacting)
          (\<lambda>u. integrityCheck_p m fs (mo_force options)))
          (find_requested options))
          (\<lambda>vs st. if vs = [] then (Resolved vs, st)
                    else then_p (run_hook (before hks) [BeforeHook] st) (\<lambda>u. Pair (Resolved vs))))
          (\<lambda>vs st. if vs = [] then (Resolved vs, st)
                    else then_p
                      (each_p (\<lambda>versionToMigrate. migrateTo m fs
                                 \<lparr>mt_version = versionToMigrate, mt_only = onlyFile options,
                                  mt_skip = None, mt_hooks = hks\<rparr>) vs st)
                      (\<lambda>u. Pair (Resolved vs))))
          (\<lambda>vs st. if vs = [] then (Resolved (), st) else run_hook (after hks) [AfterHook] st))
          (\<lambda>u. unlock m))
       (unlock_and_rethrow m)"

definition migrate_run :: "migrator \<Rightarrow> filesystem \<Rightarrow> migrate_options \<Rightarrow> run_state \<Rightarrow> unit settled \<times> run_state" where
  "migrate_run m fs options st =
     finally_p (migrate_hooks m) (createTransaction (migrate_tasks m fs options (migrate_hooks m)) st)"

text \<open>\<^verbatim>\<open>migrate({init: true})\<close> runs \<^verbatim>\<open>init()\<close> with no options and then itself without the flag.\<close>

definition migrate :: "migrator \<Rightarrow> filesystem \<Rightarrow> migrate_options \<Rightarrow> run_state \<Rightarrow> unit settled \<times> run_state" where
  "migrate m fs options st =
     (if mo_init options
      then then_p
             (init m fs \<lparr>io_skip = None, io_only = None, io_disableHooks = False, io_noScripts = False\<rparr> st)
             (\<lambda>u. migrate_run m fs options)
      else migrate_run m fs options st)"

subsection \<open>The renewing revision: afterEachTask, migrateTo and transactional\<close>

text \<open>Here \<^verbatim>\<open>afterEachTask\<close> looks the row up again before it inserts.\<close>

definition afterEachTask_tx :: "migrator \<Rightarrow> string \<Rightarrow> string \<Rightarrow> run_state \<Rightarrow> unit settled \<times> run_state" where
  "afterEachTask_tx m task_n version st =
     then_p (query select_migrations st)
       (\<lambda>rows.
          if \<not> list_ex (\<lambda>r. row_name r = task_n \<and> row_version r = version) rows
          then statement (insert_migration
                 \<lparr>row_name = task_n, row_version = version, row_currentVersion = currentVersion m\<rparr>)
          else Pair (Rejected (MigrationExistsError None)))"

definition errorHandling :: "task \<Rightarrow> error \<Rightarrow> run_state \<Rightarrow> 'a settled \<times> run_state" where
  "errorHandling t err st =
     (if is_MigrationExistsError err then (Rejected (MigrationExistsError (Some (task_name t))), st)
      else (Rejected (script_error t err), st))"

text \<open>
  An element of \<^verbatim>\<open>ops\<close> is a function without arguments returning a promise; what it
  resolves with is read for \<^verbatim>\<open>implicitCommits\<close>.
\<close>

type_synonym op = "run_state \<Rightarrow> response option settled \<times> run_state"

definition runTask :: "migrator \<Rightarrow> hooks \<Rightarrow> string \<Rightarrow> task option \<Rightarrow> op" where
  "runTask m hks version task_opt st =
     (case task_opt of
        None \<Rightarrow> (Rejected TypeError, st)
      | Some t \<Rightarrow>
          catch_p
            (then_p (then_p (then_p (then_p
               (beforeEachTask (task_name t) version st)
               (\<lambda>u. run_hook (beforeEach hks) []))
               (\<lambda>u st'. catch_p (user_code (execute t) (emit [Running (task_name t)] st')) (errorHandling t)))
               (\<lambda>taskResponse st'.
                  then_p (catch_p (afterEachTask_tx m (task_name t) version st') (errorHandling t))
                    (\<lambda>u. Pair (Resolved taskResponse))))
               (\<lambda>taskResponse st'.
                  then_p (run_hook (afterEach hks) [] st') (\<lambda>u. Pair (Resolved taskResponse))))
            (errorHandling t))"


definition hook_op :: "hook option \<Rightarrow> event \<Rightarrow> op list" where
  "hook_op h ev =
     (case h of None \<Rightarrow> []
      | Some f \<Rightarrow> [\<lambda>st. then_p (user_code f (emit [ev] st)) (\<lambda>u. Pair (Resolved None))])"

text \<open>
  The \<^verbatim>\<open>Promise.each(ops, ...)\<close> of \<^verbatim>\<open>transactional\<close>. Every op that resolves or is
  skipped is shifted off \<^verbatim>\<open>ops\<close>, so the list that is left is returned with the way
  the loop ended. The thrown \<^verbatim>\<open>{code: 'renew'}\<close> is the ending \<open>Renew\<close>; no error of
  user code has that code. A \<^verbatim>\<open>MigrationExistsError\<close> without a \<^verbatim>\<open>task\<close> makes
  \<^verbatim>\<open>err.task.name\<close> a \<^verbatim>\<open>TypeError\<close>.
\<close>

datatype each_end = Completed | Renew | Failed error

fun each_op :: "op list \<Rightarrow> run_state \<times> string list \<Rightarrow> (each_end \<times> op list) \<times> run_state \<times> string list" where
  "each_op [] s = ((Completed, []), s)"
| "each_op (op # rest) s =
     (case op (fst s) of
        (Resolved response, st') \<Rightarrow>
          (case response of
             Some r \<Rightarrow> if implicitCommits r then ((Renew, rest), st', snd s) else each_op rest (st', snd s)
           | None \<Rightarrow> each_op rest (st', snd s))
      | (Rejected err, st') \<Rightarrow>
          (case err of
             MigrationExistsError (Some n) \<Rightarrow> each_op rest (emit [Skipping n] st', snd s @ [n])
           | MigrationExistsError None \<Rightarrow> ((Failed TypeError, op # rest), st', snd s)
           | _ \<Rightarrow> ((Failed err, op # rest), st', snd s)))"

record tx_options =
  isInit :: bool
  skipInitCompletion :: bool

text \<open>
  \<^verbatim>\<open>transactional\<close>: the transaction promise settles when \<^verbatim>\<open>commit\<close> or \<^verbatim>\<open>rollback\<close> is
  called on \<^verbatim>\<open>self.transacting\<close>; \<open>None\<close> is the promise that never settles, which is
  what the \<^verbatim>\<open>READ_FOLDERS\<close> branch leaves, returning without either. A rollback hands
  back the database the transaction started from.
\<close>

function transactional :: "migrator \<Rightarrow> filesystem \<Rightarrow> tx_options \<Rightarrow> op list \<Rightarrow> run_state \<Rightarrow> unit settled option \<times> run_state" where
  "transactional m fs options ops st =
     (case each_op ops (st, []) of
        ((Completed, rest), st', skippedTasks) \<Rightarrow>
          (if \<not> isInit options \<or> (isInit options \<and> skippedTasks \<noteq> []) \<or> skipInitCompletion options
           then (Some (Resolved ()), st')
           else (case readFolders fs of
                   Inl err \<Rightarrow>
                     if err_code err = ''READ_FOLDERS'' then (None, emit [InitComplete] st'\<lparr>db := db st\<rparr>)
                     else (Some (Rejected err), emit [InitComplete] st'\<lparr>db := db st\<rparr>)
                 | Inr versionsToMigrateTo \<Rightarrow>
                     (case backfill m fs versionsToMigrateTo (emit [InitComplete] st') of
                        (Resolved u, st'') \<Rightarrow> (Some (Resolved ()), st'')
                      | (Rejected err, st'') \<Rightarrow> (Some (Rejected err), st''\<lparr>db := db st\<rparr>))))
      | ((Renew, rest), st', skippedTasks) \<Rightarrow>
          (if rest \<noteq> [] then transactional m fs options rest (emit [RenewTransaction] st')
           else (Some (Resolved ()), emit [RenewTransaction] st'))
      | ((Failed err, rest), st', skippedTasks) \<Rightarrow> (Some (Rejected err), st'\<lparr>db := db st\<rparr>))"
  by pat_completeness auto
termination
proof (relation "measure (\<lambda>(m, fs, options, ops, st). length ops)")
  show "wf (measure (\<lambda>(m, fs, options, ops, st). length ops))"
    by simp
next
  fix m :: migrator and fs :: filesystem and options :: tx_options
    and ops :: "op list" and st :: run_state
    and x1 x2 x1a rest x1b x2b
  assume e: "(x1, x2) = each_op ops (st, [])" "(x1a, rest) = x1" "x1a = Renew" "(x1b, x2b) = x2"
    and "rest \<noteq> []"
  have shorter: "each_op xs s = ((Renew, r), s') \<Longrightarrow> length r < length xs" for xs s r s'
  proof (induction xs arbitrary: s)
    case Nil
    then show ?case by simp
  next
    case (Cons op xs)
    then show ?case
      by (fastforce split: prod.splits settled.splits option.splits error.splits if_splits)
  qed
  from e have "each_op ops (st, []) = ((Renew, rest), x1b, x2b)"
    by (metis)
  then have "length rest < length ops"
    by (rule shorter)
  then show "((m, fs, options, rest, emit [RenewTransaction] x1b), m, fs, options, ops, st)
      \<in> measure (\<lambda>(m, fs, options, ops, st). length ops)"
    by simp
qed

section \<open>Predicates of the statements\<close>

text \<open>The ledger rows named \<open>n\<close> are those of \<open>rows\<close>.\<close>

definition same_named :: "string \<Rightarrow> migration_row list \<Rightarrow> run_state \<Rightarrow> bool" where
  "same_named n rows st \<longleftrightarrow>
     (\<exists>rows'. migrations (db st) = Some rows'
        \<and> filter (\<lambda>r. row_name r = n) rows' = filter (\<lambda>r. row_name r = n) rows)"

text \<open>The test of the first loop of \<^verbatim>\<open>integrityCheck\<close> for a future version.\<close>

definition is_future :: "migrator \<Rightarrow> bool \<Rightarrow> string \<Rightarrow> bool" where
  "is_future m force k \<longleftrightarrow>
     currentVersion m \<noteq> [] \<and> \<not> force \<and> isGreaterThanVersion (currentVersion m) k"

text \<open>What the first loop keeps true of its \<^verbatim>\<open>operations\<close> and \<^verbatim>\<open>futureVersions\<close>.\<close>

definition scan_inv :: "migrator \<Rightarrow> bool \<Rightarrow> database \<Rightarrow> folder_scan \<Rightarrow> bool" where
  "scan_inv m force d sc \<longleftrightarrow>
     (\<forall>k \<in> fst ` set (operations sc). is_future m force k \<longrightarrow> k \<in> set (futureVersions sc))
     \<and> (force \<longrightarrow> futureVersions sc = [])
     \<and> distinct (map fst (operations sc))
     \<and> (\<forall>k v. map_of (operations sc) k = Some v \<longrightarrow> v = where_version d k)
     \<and> (\<exists>rest. operations sc = (''init'', where_version d ''init'') # rest)"

text \<open>
  A step only adds to the trace; a run has written \<open>Lock\<close> since the state it started
  from.
\<close>

definition extends :: "run_state \<Rightarrow> run_state \<Rightarrow> bool" where
  "extends st st' \<longleftrightarrow> (\<exists>evs. trace st' = trace st @ evs)"

definition locked_since :: "run_state \<Rightarrow> run_state \<Rightarrow> bool" where
  "locked_since st st' \<longleftrightarrow> (\<exists>evs. trace st' = trace st @ Lock # evs)"

text \<open>The events that say a task body was called.\<close>

fun is_Running :: "event \<Rightarrow> bool" where
  "is_Running (Running n) = True"
| "is_Running ev = False"

text \<open>
  The ledger is \<open>rows\<close> and no task body has been called since \<open>st\<close>; a hook that
  leaves the ledger alone, however it settles; a promise whose state satisfies \<open>Q\<close>
  and whose value, if it resolves, satisfies \<open>A\<close>.
\<close>

definition untouched :: "migration_row list \<Rightarrow> run_state \<Rightarrow> run_state \<Rightarrow> bool" where
  "untouched rows st s \<longleftrightarrow>
     migrations (db s) = Some rows \<and> filter is_Running (trace s) = filter is_Running (trace st)"

definition ledger_safe_hook :: "hook option \<Rightarrow> bool" where
  "ledger_safe_hook h \<longleftrightarrow> (case h of None \<Rightarrow> True | Some f \<Rightarrow> \<forall>d. migrations (snd (f d)) = migrations d)"

definition ensures :: "('a \<Rightarrow> bool) \<Rightarrow> ('s \<Rightarrow> bool) \<Rightarrow> 'a settled \<times> 's \<Rightarrow> bool" where
  "ensures A Q p \<longleftrightarrow> Q (snd p) \<and> (\<forall>a. fst p = Resolved a \<longrightarrow> A a)"

text \<open>
  User code that resolves and leaves the two bookkeeping tables alone; a state whose
  ledger is \<open>rows\<close>, whose lock table exists and in which the task bodies \<open>runs\<close> have
  been called since \<open>st\<close>; a promise that resolves, with a value satisfying \<open>A\<close>, in a
  state satisfying \<open>Q\<close>.
\<close>

definition quiet_hook :: "hook option \<Rightarrow> bool" where
  "quiet_hook h \<longleftrightarrow>
     (case h of None \<Rightarrow> True
      | Some f \<Rightarrow> \<forall>d. fst (f d) = Resolved () \<and> migrations (snd (f d)) = migrations d
                   \<and> migrations_lock (snd (f d)) = migrations_lock d)"

definition quiet_task :: "task \<Rightarrow> bool" where
  "quiet_task t \<longleftrightarrow>
     (\<forall>d. (\<exists>resp. fst (execute t d) = Resolved resp) \<and> migrations (snd (execute t d)) = migrations d
          \<and> migrations_lock (snd (execute t d)) = migrations_lock d)"

definition books :: "migration_row list \<Rightarrow> event list \<Rightarrow> run_state \<Rightarrow> run_state \<Rightarrow> bool" where
  "books rows runs st s \<longleftrightarrow>
     migrations (db s) = Some rows \<and> migrations_lock (db s) \<noteq> None
     \<and> filter is_Running (trace s) = filter is_Running (trace st) @ runs"

definition resolves :: "('a \<Rightarrow> bool) \<Rightarrow> ('s \<Rightarrow> bool) \<Rightarrow> 'a settled \<times> 's \<Rightarrow> bool" where
  "resolves A Q p \<longleftrightarrow> (\<exists>a. fst p = Resolved a \<and> A a) \<and> Q (snd p)"

section \<open>Example inputs\<close>


definition raw_insert :: "string \<Rightarrow> string \<Rightarrow> database \<Rightarrow> database" where
  "raw_insert tb v d =
     d\<lparr>tables := AList.update tb (case map_of (tables d) tb of None \<Rightarrow> [v] | Some vs \<Rightarrow> vs @ [v]) (tables d)\<rparr>"


definition insert_task :: "string \<Rightarrow> task" where
  "insert_task n = \<lparr>task_name = n, execute = (\<lambda>d. (Resolved None, raw_insert ''log'' n d))\<rparr>"


definition km01 :: "nat option \<Rightarrow> nat option \<Rightarrow> lock_row" where
  "km01 a r = \<lparr>lock_key = ''km01'', acquired_at = a, released_at = r\<rparr>"

definition ledger_row :: "string \<Rightarrow> string \<Rightarrow> string \<Rightarrow> migration_row" where
  "ledger_row n v c = \<lparr>row_name = n, row_version = v, row_currentVersion = c\<rparr>"

definition migrator_1_0 :: migrator where
  "migrator_1_0 = \<lparr>currentVersion = ''1.0'', init_hooks = no_hooks, migrate_hooks = no_hooks, clock = 7\<rparr>"

text \<open>A database whose lock row is held: acquired at 3 and not released.\<close>

definition held_db :: database where
  "held_db =
     \<lparr>migrations = Some [ledger_row ''1-a'' ''init'' ''1.0''],
      migrations_lock = Some [km01 (Some 3) None],
      tables = []\<rparr>"

text \<open>
  A versions folder whose version 1.1 holds a task file named like the init task
  \<^verbatim>\<open>1-a\<close> and a second one, and a database initialised at 1.0.
\<close>

definition fs_same_name :: filesystem where
  "fs_same_name =
     \<lparr>init_dir = Some [insert_task ''1-a''],
      versions_dir = Some [''1.1''],
      version_dir = (\<lambda>v. if v = ''1.1'' then Some [insert_task ''1-a'', insert_task ''2-b''] else None)\<rparr>"

definition initialised_db :: database where
  "initialised_db =
     \<lparr>migrations = Some [ledger_row ''1-a'' ''init'' ''1.0''],
      migrations_lock = Some [km01 None None],
      tables = [(''log'', [''1-a''])]\<rparr>"

text \<open>One init task on disk, no versions folder, and a ledger with two init rows.\<close>

definition fs_init_only :: filesystem where
  "fs_init_only = \<lparr>init_dir = Some [insert_task ''1-a''], versions_dir = None, version_dir = (\<lambda>v. None)\<rparr>"

definition surplus_init_db :: database where
  "surplus_init_db =
     \<lparr>migrations = Some [ledger_row ''1-a'' ''init'' ''1.0'', ledger_row ''2-removed'' ''init'' ''1.0''],
      migrations_lock = Some [km01 None None],
      tables = []\<rparr>"

text \<open>
  Configured at 1.1, initialised at 1.0: version 1.1 has one task file and two ledger
  rows.
\<close>

definition migrator_1_1 :: migrator where
  "migrator_1_1 = \<lparr>currentVersion = ''1.1'', init_hooks = no_hooks, migrate_hooks = no_hooks, clock = 7\<rparr>"

definition fs_1_1 :: filesystem where
  "fs_1_1 =
     \<lparr>init_dir = Some [insert_task ''1-a''],
      versions_dir = Some [''1.1''],
      version_dir = (\<lambda>v. if v = ''1.1'' then Some [insert_task ''1-x''] else None)\<rparr>"

definition surplus_version_db :: database where
  "surplus_version_db =
     \<lparr>migrations = Some [ledger_row ''1-a'' ''init'' ''1.0'', ledger_row ''1-x'' ''1.1'' ''1.1'',
                         ledger_row ''2-gone'' ''1.1'' ''1.1''],
      migrations_lock = Some [km01 None None],
      tables = []\<rparr>"

text \<open>
  Initialised at 1.0 and configured at 1.1, with a version below the baseline and one
  above it on disk, neither with a ledger row.
\<close>

definition fs_two_versions :: filesystem where
  "fs_two_versions =
     \<lparr>init_dir = Some [insert_task ''1-a''],
      versions_dir = Some [''0.9'', ''1.1''],
      version_dir = (\<lambda>v. if v = ''0.9'' then Some [insert_task ''1-old'']
                         else if v = ''1.1'' then Some [insert_task ''1-x'', insert_task ''2-y'']
                         else None)\<rparr>"







text \<open>The states the run over \<open>implicit_tasks\<close> passes through, from \<open>initialised_db\<close>.\<close>

definition st_start :: run_state where
  "st_start = \<lparr>db = initialised_db, trace = []\<rparr>"





text \<open>A \<^verbatim>\<open>before\<close> hook of \<^verbatim>\<open>migrate\<close> that throws \<^verbatim>\<open>MigrationsAreLocked\<close>.\<close>

definition migrator_locked_hook :: migrator where
  "migrator_locked_hook =
     \<lparr>currentVersion = ''1.1'', init_hooks = no_hooks,
      migrate_hooks = no_hooks\<lparr>before := Some (\<lambda>d. (Rejected MigrationsAreLocked, d))\<rparr>,
      clock = 7\<rparr>"

definition plain_migrate :: migrate_options where
  "plain_migrate = \<lparr>mo_version = None, mo_only = None, mo_force = False, mo_init = False\<rparr>"

text \<open>
  An init folder without task files, and version 1.1, above the configured 1.0, with a
  task file that has no ledger row.
\<close>

definition fs_empty_init :: filesystem where
  "fs_empty_init =
     \<lparr>init_dir = Some [],
      versions_dir = Some [''1.1''],
      version_dir = (\<lambda>v. if v = ''1.1'' then Some [insert_task ''1-x''] else None)\<rparr>"

text \<open>Version 1.1 requested with \<^verbatim>\<open>only = 2\<close>; a ledger where that task is recorded already.\<close>

definition only_second :: migrate_options where
  "only_second = \<lparr>mo_version = Some ''1.1'', mo_only = Some 2, mo_force = False, mo_init = False\<rparr>"

definition second_recorded_db :: database where
  "second_recorded_db =
     \<lparr>migrations = Some [ledger_row ''1-a'' ''init'' ''1.0'', ledger_row ''2-y'' ''1.1'' ''1.1''],
      migrations_lock = Some [km01 None None],
      tables = [(''log'', [''1-a'', ''2-y''])]\<rparr>"

text \<open>
  Initialised at 0.9, with versions 1.0 and 1.1 on disk, two task files each and none of
  them recorded; version 1.1 requested with \<^verbatim>\<open>only = 1\<close>.
\<close>

definition fs_two_due :: filesystem where
  "fs_two_due =
     \<lparr>init_dir = Some [insert_task ''1-a''],
      versions_dir = Some [''1.0'', ''1.1''],
      version_dir = (\<lambda>v. if v = ''1.0'' then Some [insert_task ''1-p'', insert_task ''2-q'']
                         else if v = ''1.1'' then Some [insert_task ''1-x'', insert_task ''2-y'']
                         else None)\<rparr>"

definition initialised_0_9_db :: database where
  "initialised_0_9_db =
     \<lparr>migrations = Some [ledger_row ''1-a'' ''init'' ''0.9''],
      migrations_lock = Some [km01 None None],
      tables = [(''log'', [''1-a''])]\<rparr>"

definition only_first :: migrate_options where
  "only_first = \<lparr>mo_version = Some ''1.1'', mo_only = Some 1, mo_force = False, mo_init = False\<rparr>"

section \<open>Properties\<close>

subsection \<open>Promise chains and the trace\<close>

lemma then_p_Resolved [simp]: "then_p (Resolved a, s) f = f a s"
  by (simp add: then_p_def)

lemma then_p_Rejected [simp]: "then_p (Rejected e, s) f = (Rejected e, s)"
  by (simp add: then_p_def)

lemma catch_p_Resolved [simp]: "catch_p (Resolved a, s) h = (Resolved a, s)"
  by (simp add: catch_p_def)

lemma catch_p_Rejected [simp]: "catch_p (Rejected e, s) h = h e s"
  by (simp add: catch_p_def)

lemma db_emit [simp]: "db (emit evs st) = db st"
  by (simp add: emit_def)

lemma trace_emit [simp]: "trace (emit evs st) = trace st @ evs"
  by (simp add: emit_def)

subsection \<open>lock\<close>

lemma lock_db: "db (snd (lock st)) = db st"
  by (simp add: lock_def then_p_def query_def split: sum.splits)

lemma lock_not_locked: "fst (lock st) \<noteq> Rejected MigrationsAreLocked"
  by (simp add: lock_def then_p_def query_def select_lock_def no_such_table_def
      split: sum.splits option.splits)

text \<open>
  Claim C4. Lock acquisition should fail with \<^verbatim>\<open>MigrationsAreLocked\<close> while another run
  holds the lock row, and mark the row acquired otherwise. On a database whose row
  \<^verbatim>\<open>km01\<close> is held (acquired, not released) \<^verbatim>\<open>lock\<close> resolves, and the database,
  \<^verbatim>\<open>acquired_at\<close> included, is as it was: the row is only read and printed.
\<close>

theorem lock_resolves_on_held_row:
  "lock \<lparr>db = held_db, trace = []\<rparr>
     = (Resolved (), \<lparr>db = held_db, trace = [Lock, LockData [km01 (Some 3) None]]\<rparr>)"
  by (simp add: lock_def query_def select_lock_def held_db_def km01_def emit_def)

subsection \<open>The init back-fill\<close>

lemma each_p_invariant:
  assumes "\<And>x s r s'. x \<in> set xs \<Longrightarrow> I s \<Longrightarrow> f x s = (r, s') \<Longrightarrow> I s'"
    and "I s" and "each_p f xs s = (r, s')"
  shows "I s'"
  using assms
proof (induction xs arbitrary: s)
  case Nil
  then show ?case by simp
next
  case (Cons x xs)
  obtain r1 s1 where fx: "f x s = (r1, s1)"
    by (cases "f x s") auto
  have I1: "I s1"
    using Cons.prems(1)[of x s r1 s1] Cons.prems(2) fx by simp
  have step: "\<And>y t r t'. y \<in> set xs \<Longrightarrow> I t \<Longrightarrow> f y t = (r, t') \<Longrightarrow> I t'"
    using Cons.prems(1) by (meson list.set_intros(2))
  show ?case
  proof (cases r1)
    case (Resolved u)
    then have "each_p f xs s1 = (r, s')"
      using Cons.prems(3) fx by simp
    then show ?thesis
      using Cons.IH[of s1] step I1 by blast
  next
    case (Rejected err)
    then have "s' = s1"
      using Cons.prems(3) fx by simp
    then show ?thesis
      using I1 by simp
  qed
qed

lemma backfill_file_recorded:
  assumes "migrations (db st) = Some rows" and "r0 \<in> set rows" and "row_name r0 = task_name f"
  shows "backfill_file m v f st = (Resolved (), st)"
proof -
  have "filter (\<lambda>r. row_name r = task_name f) rows \<noteq> []"
    using assms(2,3) by (auto simp: filter_empty_conv)
  then show ?thesis
    using assms(1) by (simp add: backfill_file_def query_def name_exists_def select_migrations_def)
qed

lemma backfill_file_same_named:
  assumes "r0 \<in> set rows" and "row_name r0 = n" and "same_named n rows st"
    and "backfill_file m v f st = (res, st')"
  shows "same_named n rows st'"
proof -
  obtain rows' where rows': "migrations (db st) = Some rows'"
    and same: "filter (\<lambda>r. row_name r = n) rows' = filter (\<lambda>r. row_name r = n) rows"
    using assms(3) by (auto simp: same_named_def)
  have "filter (\<lambda>r. row_name r = n) rows \<noteq> []"
    using assms(1,2) by (auto simp: filter_empty_conv)
  then have ex: "filter (\<lambda>r. row_name r = n) rows' \<noteq> []"
    using same by simp
  show ?thesis
  proof (cases "task_name f = n")
    case True
    then have "backfill_file m v f st = (Resolved (), st)"
      using rows' ex by (simp add: backfill_file_def query_def name_exists_def select_migrations_def)
    then show ?thesis
      using assms(3,4) by simp
  next
    case False
    then show ?thesis
      using rows' same assms(4)
      by (auto simp: backfill_file_def query_def name_exists_def select_migrations_def
          statement_def insert_migration_def same_named_def split: if_splits)
  qed
qed

lemma backfill_version_same_named:
  assumes "r0 \<in> set rows" and "row_name r0 = n" and "same_named n rows st"
    and "backfill_version m fs v st = (res, st')"
  shows "same_named n rows st'"
proof (cases "readTasks_version fs v")
  case (Inl err)
  then show ?thesis
    using assms(3,4) by (simp add: backfill_version_def)
next
  case (Inr files)
  then have "each_p (backfill_file m v) files st = (res, st')"
    using assms(4) by (simp add: backfill_version_def)
  then show ?thesis
    using each_p_invariant[of files "same_named n rows" "backfill_file m v" st res st']
      backfill_file_same_named[OF assms(1,2)] assms(3) by blast
qed

text \<open>
  Claim C10. The duplicate check of the init back-fill looks for a ledger row of the
  task file's name and does not look at the version: when the ledger holds a row named
  \<open>n\<close>, of whatever version, a task file named \<open>n\<close> is passed over, and after the
  whole back-fill the rows named \<open>n\<close> are the ones that were there before.
\<close>

theorem backfill_skips_recorded_names:
  assumes "migrations (db st) = Some rows" and "r0 \<in> set rows" and "row_name r0 = n"
    and "backfill m fs versionsToMigrateTo st = (res, st')"
  shows "(\<forall>v f. task_name f = n \<longrightarrow> backfill_file m v f st = (Resolved (), st))
    \<and> (\<exists>rows'. migrations (db st') = Some rows'
          \<and> filter (\<lambda>r. row_name r = n) rows' = filter (\<lambda>r. row_name r = n) rows)"
proof -
  have "same_named n rows st"
    using assms(1) by (simp add: same_named_def)
  then have "same_named n rows st'"
    using each_p_invariant[of versionsToMigrateTo "same_named n rows" "backfill_version m fs" st res st']
      backfill_version_same_named[OF assms(2,3)] assms(4) by (auto simp: backfill_def)
  then show ?thesis
    using backfill_file_recorded[OF assms(1,2)] assms(3) by (auto simp: same_named_def)
qed

theorem backfill_skips_recorded_names_witness:
  "migrations initialised_db = Some [ledger_row ''1-a'' ''init'' ''1.0'']
   \<and> row_name (ledger_row ''1-a'' ''init'' ''1.0'') = ''1-a''
   \<and> backfill_file migrator_1_0 ''1.1'' (insert_task ''1-a'') \<lparr>db = initialised_db, trace = []\<rparr>
         = (Resolved (), \<lparr>db = initialised_db, trace = []\<rparr>)
   \<and> migrations (db (snd (backfill migrator_1_0 fs_same_name [''1.1''] \<lparr>db = initialised_db, trace = []\<rparr>)))
       = Some [ledger_row ''1-a'' ''init'' ''1.0'', ledger_row ''2-b'' ''1.1'' ''1.0'']"
proof -
  have run: "backfill migrator_1_0 fs_same_name [''1.1''] \<lparr>db = initialised_db, trace = []\<rparr>
    = (Resolved (), \<lparr>db = initialised_db\<lparr>migrations :=
          Some [ledger_row ''1-a'' ''init'' ''1.0'', ledger_row ''2-b'' ''1.1'' ''1.0'']\<rparr>, trace = []\<rparr>)"
    by (simp add: backfill_def backfill_version_def backfill_file_def readTasks_version_def
        fs_same_name_def insert_task_def query_def statement_def name_exists_def select_migrations_def
        insert_migration_def initialised_db_def ledger_row_def migrator_1_0_def)
  have h1: "migrations (db \<lparr>db = initialised_db, trace = []\<rparr>) = Some [ledger_row ''1-a'' ''init'' ''1.0'']"
    by (simp add: initialised_db_def)
  have h2: "ledger_row ''1-a'' ''init'' ''1.0'' \<in> set [ledger_row ''1-a'' ''init'' ''1.0'']"
    by simp
  have h3: "row_name (ledger_row ''1-a'' ''init'' ''1.0'') = ''1-a''"
    by (simp add: ledger_row_def)
  have c: "backfill_file migrator_1_0 ''1.1'' (insert_task ''1-a'') \<lparr>db = initialised_db, trace = []\<rparr>
         = (Resolved (), \<lparr>db = initialised_db, trace = []\<rparr>)"
    using backfill_skips_recorded_names[OF h1 h2 h3 run] by (simp add: insert_task_def)
  show ?thesis
    using h1 h3 c by (simp add: run)
qed

subsection \<open>Tasks that are already recorded\<close>

lemma beforeEachTask_recorded:
  assumes "migrations (db st) = Some rows"
    and "list_ex (\<lambda>r. row_name r = n \<and> row_version r = version) rows"
  shows "beforeEachTask n version st = (Rejected (MigrationExistsError None), st)"
proof -
  have "rows \<noteq> []"
    using assms(2) by auto
  then show ?thesis
    using assms by (simp add: beforeEachTask_def query_def select_migrations_def)
qed

lemma task_chain_recorded:
  assumes "migrations (db st) = Some rows"
    and "list_ex (\<lambda>r. row_name r = task_name t \<and> row_version r = version) rows"
  shows "task_chain m hks version t st = (Rejected (MigrationExistsError None), st)"
  by (simp add: task_chain_def beforeEachTask_recorded[OF assms])

lemma executeTask_recorded:
  assumes "migrations (db st) = Some rows"
    and "list_ex (\<lambda>r. row_name r = task_name t \<and> row_version r = version) rows"
  shows "executeTask m hks version (Some t) (st, sk)
           = (Resolved (), emit [Skipping (task_name t)] st, sk @ [task_name t])"
  by (simp add: executeTask_def task_chain_recorded[OF assms])

lemma script_error_not_exists: "\<not> is_MigrationExistsError (script_error t err)"
  by (simp add: script_error_def)

lemma executeTask_rejected:
  assumes "executeTask m hks version task_opt s = (Rejected e, s')"
  shows "\<not> is_MigrationExistsError e"
  using assms
  by (auto simp: executeTask_def script_error_not_exists
      split: option.splits prod.splits settled.splits if_splits)

lemma each_p_rejected:
  assumes "each_p f xs s = (Rejected e, s')"
  shows "\<exists>x s0. x \<in> set xs \<and> f x s0 = (Rejected e, s')"
  using assms
proof (induction xs arbitrary: s)
  case Nil
  then show ?case by simp
next
  case (Cons x xs)
  obtain r1 s1 where fx: "f x s = (r1, s1)"
    by (cases "f x s") auto
  show ?case
  proof (cases r1)
    case (Resolved u)
    then have "each_p f xs s1 = (Rejected e, s')"
      using Cons.prems fx by simp
    then show ?thesis
      using Cons.IH[of s1] by auto
  next
    case (Rejected err)
    then have "f x s = (Rejected e, s')"
      using Cons.prems fx by simp
    then show ?thesis
      by auto
  qed
qed

lemma backfill_file_rejected:
  assumes "backfill_file m v f st = (Rejected e, st')"
  shows "\<not> is_MigrationExistsError e"
  using assms
  by (auto simp: backfill_file_def query_def statement_def name_exists_def select_migrations_def
      insert_migration_def no_such_table_def split: option.splits if_splits sum.splits)

lemma backfill_version_rejected:
  assumes "backfill_version m fs v st = (Rejected e, st')"
  shows "\<not> is_MigrationExistsError e"
proof (cases "readTasks_version fs v")
  case (Inl err)
  then show ?thesis
    using assms by (auto simp: backfill_version_def readTasks_version_def split: option.splits)
next
  case (Inr files)
  then show ?thesis
    using assms each_p_rejected[of "backfill_file m v" files st e st'] backfill_file_rejected
    by (auto simp: backfill_version_def)
qed

lemma backfill_rejected:
  assumes "backfill m fs vs st = (Rejected e, st')"
  shows "\<not> is_MigrationExistsError e"
  using assms each_p_rejected[of "backfill_version m fs" vs st e st'] backfill_version_rejected
  by (auto simp: backfill_def)

lemma read_tasks_for_error:
  assumes "read_tasks_for fs v = Inl e"
  shows "\<not> is_MigrationExistsError e"
  using assms
  by (auto simp: read_tasks_for_def readTasks_version_def readTasks_init_def
      split: if_splits option.splits sum.splits)

lemma migrateTo_rejected:
  assumes "migrateTo m fs opts st = (Rejected e, st')"
  shows "\<not> is_MigrationExistsError e"
proof (cases "read_tasks_for fs (mt_version opts)")
  case (Inl err)
  then show ?thesis
    using assms read_tasks_for_error[of fs "mt_version opts" err] by (simp add: migrateTo_def)
next
  case (Inr all_tasks)
  define tasks where "tasks = select_tasks (mt_only opts) (mt_skip opts) all_tasks"
  define s0 where "s0 = (emit [MigrateTo (mt_version opts) (length tasks)] st, [] :: string list)"
  obtain r1 st1 sk1 where run: "each_p (executeTask m (mt_hooks opts) (mt_version opts)) tasks s0 = (r1, st1, sk1)"
    by (cases "each_p (executeTask m (mt_hooks opts) (mt_version opts)) tasks s0") auto
  show ?thesis
  proof (cases r1)
    case (Rejected err)
    then have "e = err"
      using assms Inr run by (simp add: migrateTo_def Let_def tasks_def s0_def)
    moreover have "\<not> is_MigrationExistsError err"
      using each_p_rejected[of "executeTask m (mt_hooks opts) (mt_version opts)" tasks s0 err "(st1, sk1)"]
        run Rejected executeTask_rejected by blast
    ultimately show ?thesis by simp
  next
    case (Resolved u)
    then show ?thesis
      using assms Inr run backfill_rejected[of m fs _ st1 e st']
      by (auto simp: migrateTo_def Let_def tasks_def s0_def readFolders_def
          split: if_splits sum.splits option.splits)
  qed
qed

lemma runTask_recorded:
  assumes "migrations (db st) = Some rows"
    and "list_ex (\<lambda>r. row_name r = task_name t \<and> row_version r = version) rows"
  shows "runTask m hks version (Some t) st = (Rejected (MigrationExistsError (Some (task_name t))), st)"
  by (simp add: runTask_def beforeEachTask_recorded[OF assms] errorHandling_def)

lemma each_op_failed:
  assumes "each_op ops s = ((Failed e, rest), s')"
  shows "\<not> is_MigrationExistsError e"
  using assms
proof (induction ops arbitrary: s)
  case Nil
  then show ?case by simp
next
  case (Cons op ops)
  then show ?case
    by (auto split: prod.splits settled.splits option.splits error.splits if_splits)
qed

lemma transactional_rejected:
  assumes "transactional m fs options ops st = (Some (Rejected e), st')"
  shows "\<not> is_MigrationExistsError e"
  using assms
proof (induction m fs options ops st rule: transactional.induct)
  case (1 m fs options ops st)
  obtain en rest st1 sk1 where run: "each_op ops (st, []) = ((en, rest), st1, sk1)"
    by (cases "each_op ops (st, [])") auto
  show ?case
  proof (cases en)
    case Completed
    then show ?thesis
      using "1.prems" run backfill_rejected[of m fs _ "emit [InitComplete] st1" e]
      by (auto simp: readFolders_def split: if_splits sum.splits option.splits prod.splits settled.splits)
  next
    case Renew
    then show ?thesis
      using "1.prems" run "1.IH"[of "(en, rest)" "(st1, sk1)" en rest st1 sk1]
      by (auto split: if_splits)
  next
    case (Failed err)
    then show ?thesis
      using "1.prems" run each_op_failed[of ops "(st, [])" err rest "(st1, sk1)"] by auto
  qed
qed

text \<open>
  Claim C8. When the pre-check finds a ledger row for the task's name and version, the
  \<^verbatim>\<open>MigrationExistsError\<close> it raises stays inside the executor: in both revisions the
  loop goes on with the next task, the database untouched and the task's name among
  the skipped ones, and neither \<^verbatim>\<open>migrateTo\<close> nor \<^verbatim>\<open>transactional\<close> ever rejects with
  that error.
\<close>

theorem recorded_task_is_skipped:
  assumes "migrations (db st) = Some rows"
    and "list_ex (\<lambda>r. row_name r = task_name t \<and> row_version r = version) rows"
  shows "each_p (executeTask m hks version) (Some t # ts) (st, sk)
           = each_p (executeTask m hks version) ts (emit [Skipping (task_name t)] st, sk @ [task_name t])
     \<and> each_op (runTask m hks version (Some t) # ops) (st, sk)
           = each_op ops (emit [Skipping (task_name t)] st, sk @ [task_name t])
     \<and> (\<forall>fs opts s x. fst (migrateTo m fs opts s) \<noteq> Rejected (MigrationExistsError x))
     \<and> (\<forall>fs options ops' s x. fst (transactional m fs options ops' s) \<noteq> Some (Rejected (MigrationExistsError x)))"
proof -
  have a: "each_p (executeTask m hks version) (Some t # ts) (st, sk)
           = each_p (executeTask m hks version) ts (emit [Skipping (task_name t)] st, sk @ [task_name t])"
    by (simp add: executeTask_recorded[OF assms])
  have b: "each_op (runTask m hks version (Some t) # ops) (st, sk)
           = each_op ops (emit [Skipping (task_name t)] st, sk @ [task_name t])"
    by (simp add: runTask_recorded[OF assms])
  have c: "fst (migrateTo m fs opts s) \<noteq> Rejected (MigrationExistsError x)" for fs opts s x
    using migrateTo_rejected[of m fs opts s "MigrationExistsError x" "snd (migrateTo m fs opts s)"]
    by (cases "migrateTo m fs opts s") auto
  have d: "fst (transactional m fs options ops' s) \<noteq> Some (Rejected (MigrationExistsError x))" for fs options ops' s x
    using transactional_rejected[of m fs options ops' s "MigrationExistsError x" "snd (transactional m fs options ops' s)"]
    by (cases "transactional m fs options ops' s") auto
  show ?thesis
    using a b c d by blast
qed

theorem recorded_task_is_skipped_witness:
  "migrations (db \<lparr>db = initialised_db, trace = []\<rparr>) = Some [ledger_row ''1-a'' ''init'' ''1.0'']
   \<and> list_ex (\<lambda>r. row_name r = task_name (insert_task ''1-a'') \<and> row_version r = ''init'')
         [ledger_row ''1-a'' ''init'' ''1.0'']
   \<and> each_p (executeTask migrator_1_0 no_hooks ''init'') [Some (insert_task ''1-a'')]
         (\<lparr>db = initialised_db, trace = []\<rparr>, [])
       = (Resolved (), \<lparr>db = initialised_db, trace = [Skipping ''1-a'']\<rparr>, [''1-a''])
   \<and> each_op [runTask migrator_1_0 no_hooks ''init'' (Some (insert_task ''1-a''))]
         (\<lparr>db = initialised_db, trace = []\<rparr>, [])
       = ((Completed, []), \<lparr>db = initialised_db, trace = [Skipping ''1-a'']\<rparr>, [''1-a''])"
proof -
  have h1: "migrations (db \<lparr>db = initialised_db, trace = []\<rparr>) = Some [ledger_row ''1-a'' ''init'' ''1.0'']"
    by (simp add: initialised_db_def)
  have h2: "list_ex (\<lambda>r. row_name r = task_name (insert_task ''1-a'') \<and> row_version r = ''init'')
      [ledger_row ''1-a'' ''init'' ''1.0'']"
    by (simp add: ledger_row_def insert_task_def)
  show ?thesis
    using h1 h2 recorded_task_is_skipped[OF h1 h2, of migrator_1_0 no_hooks "[]" "[]" "[]"]
    by (simp add: emit_def insert_task_def)
qed

subsection \<open>isDatabaseOK\<close>

lemma set_own_keys_order [simp]: "set (own_keys_order xs) = set xs"
  by (auto simp: own_keys_order_def)

lemma check_versions_resolved:
  assumes "check_versions xs = Resolved u" and "(k, c) \<in> set xs"
  shows "expected c = actual c"
  using assms by (induction xs rule: check_versions.induct) (auto split: if_splits)

lemma check_versions_codes:
  "check_versions xs = Resolved ()
   \<or> check_versions xs = Rejected (DatabaseIsNotOkError ''DB_NEEDS_MIGRATION'')
   \<or> check_versions xs = Rejected (DatabaseIsNotOkError ''MIGRATION_STATE_ERROR'')"
  by (induction xs rule: check_versions.induct) auto

lemma check_versions_state_error:
  assumes "\<forall>(k, c) \<in> set xs. expected c \<le> actual c" and "(k, c) \<in> set xs" and "expected c < actual c"
  shows "check_versions xs = Rejected (DatabaseIsNotOkError ''MIGRATION_STATE_ERROR'')"
  using assms by (induction xs rule: check_versions.induct) (auto split: if_splits)

lemma check_init_codes:
  "check_init result = Resolved () \<or> check_init result = Rejected (DatabaseIsNotOkError ''DB_NOT_INITIALISED'')"
  by (simp add: check_init_def split: option.splits)

lemma check_init_not_behind:
  assumes "\<forall>(k, c) \<in> set result. expected c \<le> actual c"
  shows "check_init result = Resolved ()"
proof (cases "map_of result ''init''")
  case None
  then show ?thesis by (simp add: check_init_def)
next
  case (Some c)
  then have "(''init'', c) \<in> set result"
    by (rule map_of_SomeD)
  then have "expected c \<le> actual c"
    using assms by auto
  then show ?thesis
    using Some by (simp add: check_init_def)
qed

text \<open>
  Claim C6, as amended. For every version other than init in the integrity result whose
  executed count exceeds the expected one, \<^verbatim>\<open>isDatabaseOK\<close> rejects with a
  \<^verbatim>\<open>DatabaseIsNotOkError\<close>; its code is \<^verbatim>\<open>MIGRATION_STATE_ERROR\<close> when no version of the
  result is behind, and otherwise the code of the check that fires first
  (\<^verbatim>\<open>DB_NOT_INITIALISED\<close> for init, \<^verbatim>\<open>DB_NEEDS_MIGRATION\<close> for an earlier version).
\<close>

theorem isDatabaseOK_rejects_surplus:
  assumes "fst (integrityCheck m fs False d) = Inr result"
    and "(V, c) \<in> set result" and "V \<noteq> ''init''" and "expected c < actual c"
  shows "isDatabaseOK m fs d \<in> {Rejected (DatabaseIsNotOkError ''DB_NOT_INITIALISED''),
            Rejected (DatabaseIsNotOkError ''DB_NEEDS_MIGRATION''),
            Rejected (DatabaseIsNotOkError ''MIGRATION_STATE_ERROR'')}
      \<and> ((\<forall>(k, c') \<in> set result. expected c' \<le> actual c')
            \<longrightarrow> isDatabaseOK m fs d = Rejected (DatabaseIsNotOkError ''MIGRATION_STATE_ERROR''))"
proof -
  define others where "others = own_keys_order (AList.delete ''init'' result)"
  have ok: "isDatabaseOK m fs d = check_result result"
    using assms(1) by (simp add: isDatabaseOK_def)
  have mem: "(V, c) \<in> set others"
    using assms(2,3) by (auto simp: others_def AList.delete_eq)
  have "check_versions others \<noteq> Resolved ()"
    using check_versions_resolved[of others "()" V c] mem assms(4) by auto
  then have versions: "check_versions others = Rejected (DatabaseIsNotOkError ''DB_NEEDS_MIGRATION'')
      \<or> check_versions others = Rejected (DatabaseIsNotOkError ''MIGRATION_STATE_ERROR'')"
    using check_versions_codes[of others] by auto
  have first: "isDatabaseOK m fs d \<in> {Rejected (DatabaseIsNotOkError ''DB_NOT_INITIALISED''),
            Rejected (DatabaseIsNotOkError ''DB_NEEDS_MIGRATION''),
            Rejected (DatabaseIsNotOkError ''MIGRATION_STATE_ERROR'')}"
    using check_init_codes[of result] versions
    by (auto simp: ok check_result_def others_def)
  have second: "isDatabaseOK m fs d = Rejected (DatabaseIsNotOkError ''MIGRATION_STATE_ERROR'')"
    if all: "\<forall>(k, c') \<in> set result. expected c' \<le> actual c'"
  proof -
    have "\<forall>(k, c') \<in> set others. expected c' \<le> actual c'"
      using all by (auto simp: others_def AList.delete_eq)
    then have "check_versions others = Rejected (DatabaseIsNotOkError ''MIGRATION_STATE_ERROR'')"
      using check_versions_state_error[of others V c] mem assms(4) by simp
    then show ?thesis
      using check_init_not_behind[OF all] by (simp add: ok check_result_def others_def)
  qed
  show ?thesis
    using first second by blast
qed

lemma not_index_init [simp]: "\<not> is_array_index ''init''"
  by (simp add: is_array_index_def is_digit_def)

lemma init_not_greater [simp]: "\<not> isGreaterThanVersion v ''init''"
  by (simp add: isGreaterThanVersion_def version_components_def match_version_def is_version_char_def is_digit_def)

lemma integrityCheck_surplus_init:
  "integrityCheck migrator_1_0 fs_init_only False surplus_init_db
     = (Inr [(''init'', \<lparr>expected = 1, actual = 2\<rparr>)], [])"
  by (simp add: integrityCheck_def toReturn_counts_def scan_folders_def folders_of_def readFolders_def
      fs_init_only_def scan_folder_def where_version_def select_migrations_def surplus_init_db_def
      ledger_row_def own_keys_order_def expected_of_def readTasks_init_def init_baseline_def)

text \<open>
  Claim C6 as stated fails for the init version, which is left out of the comparison of
  the executed with the expected count: with one init task on disk and two init rows in
  the ledger the health check resolves.
\<close>

theorem isDatabaseOK_accepts_surplus_init:
  "fst (integrityCheck migrator_1_0 fs_init_only False surplus_init_db)
     = Inr [(''init'', \<lparr>expected = 1, actual = 2\<rparr>)]
   \<and> isDatabaseOK migrator_1_0 fs_init_only surplus_init_db = Resolved ()"
  by (simp add: isDatabaseOK_def integrityCheck_surplus_init check_result_def check_init_def
      own_keys_order_def AList.delete_eq)

lemma gt_1_0_1_1: "isGreaterThanVersion ''1.0'' ''1.1''"
  by (simp add: isGreaterThanVersion_def version_components_def match_version_def is_version_char_def
      is_digit_def digits_val_def digit_val_def)

lemma not_gt_1_1_1_1: "\<not> isGreaterThanVersion ''1.1'' ''1.1''"
  by (simp add: isGreaterThanVersion_def version_components_def match_version_def is_version_char_def
      is_digit_def digits_val_def digit_val_def)

lemma not_index_1_1: "\<not> is_array_index ''1.1''"
  by (simp add: is_array_index_def is_digit_def)

lemma match_1_1: "match_version ''1.1'' = Some ''1.1''"
  by (simp add: match_version_def is_version_char_def is_digit_def)

lemma integrityCheck_surplus_version:
  "integrityCheck migrator_1_1 fs_1_1 False surplus_version_db
     = (Inr [(''init'', \<lparr>expected = 1, actual = 1\<rparr>), (''1.1'', \<lparr>expected = 1, actual = 2\<rparr>)], [])"
  by (simp add: integrityCheck_def toReturn_counts_def scan_folders_def folders_of_def readFolders_def
      fs_1_1_def scan_folder_def where_version_def select_migrations_def surplus_version_db_def
      ledger_row_def own_keys_order_def expected_of_def readTasks_init_def readTasks_version_def
      init_baseline_def migrator_1_1_def match_1_1 not_gt_1_1_1_1 gt_1_0_1_1 not_index_1_1)

theorem isDatabaseOK_rejects_surplus_witness:
  "fst (integrityCheck migrator_1_1 fs_1_1 False surplus_version_db)
     = Inr [(''init'', \<lparr>expected = 1, actual = 1\<rparr>), (''1.1'', \<lparr>expected = 1, actual = 2\<rparr>)]
   \<and> (''1.1'', \<lparr>expected = 1, actual = 2\<rparr>)
       \<in> set [(''init'', \<lparr>expected = 1, actual = 1\<rparr>), (''1.1'', \<lparr>expected = 1, actual = 2\<rparr>)]
   \<and> ''1.1'' \<noteq> ''init''
   \<and> expected \<lparr>expected = 1, actual = 2\<rparr> < actual \<lparr>expected = 1, actual = 2\<rparr>
   \<and> isDatabaseOK migrator_1_1 fs_1_1 surplus_version_db
       = Rejected (DatabaseIsNotOkError ''MIGRATION_STATE_ERROR'')"
proof -
  have h1: "fst (integrityCheck migrator_1_1 fs_1_1 False surplus_version_db)
     = Inr [(''init'', \<lparr>expected = 1, actual = 1\<rparr>), (''1.1'', \<lparr>expected = 1, actual = 2\<rparr>)]"
    by (simp add: integrityCheck_surplus_version)
  have h2: "(''1.1'', \<lparr>expected = 1, actual = 2\<rparr>)
       \<in> set [(''init'', \<lparr>expected = 1, actual = 1\<rparr>), (''1.1'', \<lparr>expected = 1, actual = 2\<rparr>)]"
    by simp
  have h3: "''1.1'' \<noteq> ''init''"
    by simp
  have h4: "expected \<lparr>expected = 1, actual = 2\<rparr> < actual \<lparr>expected = 1, actual = 2\<rparr>"
    by simp
  have "isDatabaseOK migrator_1_1 fs_1_1 surplus_version_db
       = Rejected (DatabaseIsNotOkError ''MIGRATION_STATE_ERROR'')"
    using isDatabaseOK_rejects_surplus[OF h1 h2 h3 h4] by simp
  then show ?thesis
    using h1 by simp
qed

subsection \<open>integrityCheck: future versions\<close>

lemma foldl_invariant:
  assumes "I a" and "\<And>b x. I b \<Longrightarrow> I (f b x)"
  shows "I (foldl f a xs)"
  using assms by (induction xs arbitrary: a) auto

lemma scan_folder_first:
  "scan_inv m force d (scan_folder m force d \<lparr>futureVersions = [], operations = [], warnings = []\<rparr> ''init'')"
  by (simp add: scan_folder_def scan_inv_def is_future_def)

lemma scan_folder_inv:
  assumes "scan_inv m force d sc"
  shows "scan_inv m force d (scan_folder m force d sc folder)"
proof (cases "if folder \<noteq> ''init'' then match_version folder else Some folder")
  case None
  then show ?thesis
    using assms by (simp add: scan_folder_def scan_inv_def)
next
  case (Some key)
  obtain rest where ops: "operations sc = (''init'', where_version d ''init'') # rest"
    using assms by (auto simp: scan_inv_def)
  define ops' where "ops' = AList.update key (where_version d key) (operations sc)"
  define fv' where "fv' = (if currentVersion m \<noteq> [] \<and> \<not> force \<and> isGreaterThanVersion (currentVersion m) key
                then futureVersions sc @ [key] else futureVersions sc)"
  have res: "scan_folder m force d sc folder = sc\<lparr>futureVersions := fv', operations := ops'\<rparr>"
    using Some by (simp add: scan_folder_def ops'_def fv'_def)
  have a: "\<forall>k \<in> fst ` set ops'. is_future m force k \<longrightarrow> k \<in> set fv'"
    using assms by (auto simp: scan_inv_def ops'_def fv'_def dom_update is_future_def)
  have b: "force \<longrightarrow> fv' = []"
    using assms by (simp add: scan_inv_def fv'_def)
  have c: "distinct (map fst ops')"
    using assms by (simp add: scan_inv_def ops'_def distinct_update)
  have e: "\<forall>k v. map_of ops' k = Some v \<longrightarrow> v = where_version d k"
    using assms by (auto simp: scan_inv_def ops'_def update_conv')
  have f: "\<exists>rest'. ops' = (''init'', where_version d ''init'') # rest'"
    by (simp add: ops'_def ops)
  show ?thesis
    using a b c e f by (simp add: res scan_inv_def)
qed

lemma scan_folders_inv: "scan_inv m force d (scan_folders m fs force d)"
proof -
  have "scan_inv m force d
      (foldl (scan_folder m force d)
        (scan_folder m force d \<lparr>futureVersions = [], operations = [], warnings = []\<rparr> ''init'') fds)" for fds
    by (rule foldl_invariant) (simp_all add: scan_folder_first scan_folder_inv)
  then show ?thesis
    by (simp add: scan_folders_def folders_of_def)
qed

lemma props_keys:
  assumes "props ops = Inr res"
  shows "map fst res = map fst ops"
  using assms by (induction ops arbitrary: res rule: props.induct) (auto split: sum.splits)

lemma count_versions_keys:
  assumes "count_versions fs cur acc xs = Inr tr"
  shows "fst ` set tr = fst ` set acc \<union> fst ` set xs"
  using assms
proof (induction xs arbitrary: cur acc)
  case Nil
  then show ?case by simp
next
  case (Cons x xs)
  obtain version rows where x: "x = (version, rows)"
    by (cases x) auto
  show ?case
    using Cons.prems Cons.IH unfolding x
    by (auto simp: Let_def dom_update split: sum.splits)
qed

lemma toReturn_keys:
  assumes "toReturn_counts m fs force d = Inr toReturn" and "map_of toReturn V = Some c"
  shows "V \<in> fst ` set (operations (scan_folders m fs force d))"
proof -
  obtain res where res: "props (operations (scan_folders m fs force d)) = Inr res"
    and tr: "count_versions fs [] [] (own_keys_order res) = Inr toReturn"
    using assms(1) by (auto simp: toReturn_counts_def split: sum.splits)
  have "V \<in> fst ` set toReturn"
    using map_of_SomeD[OF assms(2)] by force
  then have "V \<in> fst ` set res"
    using count_versions_keys[OF tr] by simp
  then show ?thesis
    using props_keys[OF res] by (metis set_map)
qed

lemma drop_future_mono:
  assumes "drop_future tr ws fvs = (Inr result, ws')"
  shows "(map_of tr k = None \<longrightarrow> map_of result k = None) \<and> set ws \<subseteq> set ws'"
  using assms
proof (induction fvs arbitrary: tr ws)
  case Nil
  then show ?case by simp
next
  case (Cons fv fvs)
  then show ?case
    by (fastforce simp: delete_conv split: option.splits if_splits)
qed

lemma drop_future_dropped:
  assumes "drop_future tr ws fvs = (Inr result, ws')" and "V \<in> set fvs"
    and "map_of tr V = Some c" and "actual c \<noteq> expected c"
  shows "map_of result V = None \<and> set (skip_warnings V) \<subseteq> set ws'"
  using assms
proof (induction fvs arbitrary: tr ws)
  case Nil
  then show ?case by simp
next
  case (Cons fv fvs)
  show ?case
  proof (cases "fv = V")
    case True
    then have "drop_future (AList.delete V tr) (ws @ skip_warnings V) fvs = (Inr result, ws')"
      using Cons.prems by simp
    then show ?thesis
      using drop_future_mono[of "AList.delete V tr" "ws @ skip_warnings V" fvs result ws' V]
      by (simp add: delete_conv)
  next
    case False
    then have V: "V \<in> set fvs"
      using Cons.prems(2) by simp
    obtain c' where c': "map_of tr fv = Some c'"
      using Cons.prems(1) by (cases "map_of tr fv") auto
    show ?thesis
    proof (cases "actual c' \<noteq> expected c'")
      case True
      then have "drop_future (AList.delete fv tr) (ws @ skip_warnings fv) fvs = (Inr result, ws')"
        using Cons.prems(1) c' by simp
      moreover have "map_of (AList.delete fv tr) V = Some c"
        using False Cons.prems(3) by simp
      ultimately show ?thesis
        using Cons.IH V Cons.prems(4) by blast
    next
      case False
      then have "drop_future tr ws fvs = (Inr result, ws')"
        using Cons.prems(1) c' by simp
      then show ?thesis
        using Cons.IH V Cons.prems(3,4) by blast
    qed
  qed
qed

text \<open>
  Claim C7. \<open>toReturn_counts\<close> is the result before the future versions are looked at.
  Without \<^verbatim>\<open>force\<close>, every version greater than the configured \<^verbatim>\<open>currentVersion\<close> whose
  expected and executed counts differ is absent from the result of \<^verbatim>\<open>integrityCheck\<close>,
  and among the warnings written are the line that names the version as skipped, the
  line that tells of \<^verbatim>\<open>--force\<close> and the line with the command to run; with \<^verbatim>\<open>force\<close> the
  result is the one before that step, with no version dropped.
\<close>

theorem future_versions_are_dropped:
  assumes "integrityCheck m fs force d = (Inr result, ws)"
    and "toReturn_counts m fs force d = Inr toReturn"
  shows "(\<not> force \<and> currentVersion m \<noteq> [] \<longrightarrow>
           (\<forall>V c. map_of toReturn V = Some c \<and> isGreaterThanVersion (currentVersion m) V
                    \<and> expected c \<noteq> actual c
                  \<longrightarrow> map_of result V = None
                    \<and> (''knex-migrator is skipping '' @ V) \<in> set ws
                    \<and> ''Current version in MigratorConfig.js is smaller then requested version, use --force to proceed!''
                        \<in> set ws
                    \<and> (''Please run `knex-migrator migrate --v '' @ V @ '' --force` to proceed!'') \<in> set ws))
      \<and> (force \<longrightarrow> result = toReturn)"
proof -
  define sc where "sc = scan_folders m fs force d"
  have inv: "scan_inv m force d sc"
    by (simp add: sc_def scan_folders_inv)
  have run: "drop_future toReturn (warnings sc) (futureVersions sc) = (Inr result, ws)"
    using assms by (simp add: integrityCheck_def sc_def Let_def)
  have forced: "result = toReturn" if force
  proof -
    have "futureVersions sc = []"
      using inv that by (simp add: scan_inv_def)
    then show ?thesis
      using run by simp
  qed
  have dropped: "map_of result V = None
      \<and> (''knex-migrator is skipping '' @ V) \<in> set ws
      \<and> ''Current version in MigratorConfig.js is smaller then requested version, use --force to proceed!''
          \<in> set ws
      \<and> (''Please run `knex-migrator migrate --v '' @ V @ '' --force` to proceed!'') \<in> set ws"
    if "\<not> force" "currentVersion m \<noteq> []" "map_of toReturn V = Some c"
      "isGreaterThanVersion (currentVersion m) V" "expected c \<noteq> actual c" for V c
  proof -
    have "V \<in> fst ` set (operations sc)"
      using toReturn_keys[OF assms(2) that(3)] by (simp add: sc_def)
    then have "V \<in> set (futureVersions sc)"
      using inv that(1,2,4) by (auto simp: scan_inv_def is_future_def)
    then have "map_of result V = None \<and> set (skip_warnings V) \<subseteq> set ws"
      using drop_future_dropped[OF run _ that(3)] that(5) by auto
    then show ?thesis
      by (simp add: skip_warnings_def)
  qed
  show ?thesis
    using forced dropped by meson
qed

lemma toReturn_counts_future:
  "toReturn_counts migrator_1_0 fs_same_name force initialised_db
     = Inr [(''init'', \<lparr>expected = 1, actual = 1\<rparr>), (''1.1'', \<lparr>expected = 2, actual = 0\<rparr>)]"
  by (simp add: toReturn_counts_def scan_folders_def folders_of_def readFolders_def
      fs_same_name_def scan_folder_def where_version_def select_migrations_def initialised_db_def
      ledger_row_def own_keys_order_def expected_of_def readTasks_init_def readTasks_version_def
      init_baseline_def migrator_1_0_def match_1_1 gt_1_0_1_1 not_index_1_1)

lemma scan_folders_future:
  "scan_folders migrator_1_0 fs_same_name force initialised_db
     = \<lparr>futureVersions = (if force then [] else [''1.1'']),
        operations = [(''init'', where_version initialised_db ''init''),
                      (''1.1'', where_version initialised_db ''1.1'')],
        warnings = []\<rparr>"
  by (simp add: scan_folders_def folders_of_def readFolders_def
      fs_same_name_def scan_folder_def migrator_1_0_def match_1_1 gt_1_0_1_1)

lemma integrityCheck_future:
  "integrityCheck migrator_1_0 fs_same_name False initialised_db
     = (Inr [(''init'', \<lparr>expected = 1, actual = 1\<rparr>)], skip_warnings ''1.1'')"
  by (simp add: integrityCheck_def toReturn_counts_future scan_folders_future)

lemma integrityCheck_future_forced:
  "integrityCheck migrator_1_0 fs_same_name True initialised_db
     = (Inr [(''init'', \<lparr>expected = 1, actual = 1\<rparr>), (''1.1'', \<lparr>expected = 2, actual = 0\<rparr>)], [])"
  by (simp add: integrityCheck_def toReturn_counts_future scan_folders_future)

theorem future_versions_are_dropped_witness:
  "integrityCheck migrator_1_0 fs_same_name False initialised_db
     = (Inr [(''init'', \<lparr>expected = 1, actual = 1\<rparr>)],
        [''knex-migrator is skipping 1.1'',
         ''Current version in MigratorConfig.js is smaller then requested version, use --force to proceed!'',
         ''Please run `knex-migrator migrate --v 1.1 --force` to proceed!''])
   \<and> toReturn_counts migrator_1_0 fs_same_name False initialised_db
     = Inr [(''init'', \<lparr>expected = 1, actual = 1\<rparr>), (''1.1'', \<lparr>expected = 2, actual = 0\<rparr>)]
   \<and> currentVersion migrator_1_0 \<noteq> []
   \<and> isGreaterThanVersion (currentVersion migrator_1_0) ''1.1''
   \<and> map_of [(''init'', \<lparr>expected = 1, actual = 1\<rparr>)] ''1.1'' = None
   \<and> ''knex-migrator is skipping 1.1'' \<in> set (snd (integrityCheck migrator_1_0 fs_same_name False initialised_db))
   \<and> ''Current version in MigratorConfig.js is smaller then requested version, use --force to proceed!''
       \<in> set (snd (integrityCheck migrator_1_0 fs_same_name False initialised_db))
   \<and> ''Please run `knex-migrator migrate --v 1.1 --force` to proceed!''
       \<in> set (snd (integrityCheck migrator_1_0 fs_same_name False initialised_db))
   \<and> fst (integrityCheck migrator_1_0 fs_same_name True initialised_db)
     = Inr [(''init'', \<lparr>expected = 1, actual = 1\<rparr>), (''1.1'', \<lparr>expected = 2, actual = 0\<rparr>)]"
proof -
  have cv: "currentVersion migrator_1_0 \<noteq> []" and gt: "isGreaterThanVersion (currentVersion migrator_1_0) ''1.1''"
    by (simp_all add: migrator_1_0_def gt_1_0_1_1)
  have written: "integrityCheck migrator_1_0 fs_same_name False initialised_db
     = (Inr [(''init'', \<lparr>expected = 1, actual = 1\<rparr>)],
        [''knex-migrator is skipping 1.1'',
         ''Current version in MigratorConfig.js is smaller then requested version, use --force to proceed!'',
         ''Please run `knex-migrator migrate --v 1.1 --force` to proceed!''])"
    by (simp add: integrityCheck_future skip_warnings_def)
  have dropped: "map_of [(''init'', \<lparr>expected = 1, actual = 1\<rparr>)] ''1.1'' = None
   \<and> ''knex-migrator is skipping 1.1'' \<in> set (snd (integrityCheck migrator_1_0 fs_same_name False initialised_db))
   \<and> ''Current version in MigratorConfig.js is smaller then requested version, use --force to proceed!''
       \<in> set (snd (integrityCheck migrator_1_0 fs_same_name False initialised_db))
   \<and> ''Please run `knex-migrator migrate --v 1.1 --force` to proceed!''
       \<in> set (snd (integrityCheck migrator_1_0 fs_same_name False initialised_db))"
    using future_versions_are_dropped[OF integrityCheck_future toReturn_counts_future, THEN conjunct1,
        rule_format, of "''1.1''" "\<lparr>expected = 2, actual = 0\<rparr>"] cv gt
    by (simp add: integrityCheck_future)
  have forced: "fst (integrityCheck migrator_1_0 fs_same_name True initialised_db)
     = Inr [(''init'', \<lparr>expected = 1, actual = 1\<rparr>), (''1.1'', \<lparr>expected = 2, actual = 0\<rparr>)]"
    using future_versions_are_dropped[OF integrityCheck_future_forced toReturn_counts_future]
    by (simp add: integrityCheck_future_forced)
  show ?thesis
    using written toReturn_counts_future cv gt dropped forced by simp
qed

subsection \<open>integrityCheck: expected and executed counts\<close>

lemma drop_future_subset:
  assumes "drop_future tr ws fvs = (Inr result, ws')" and "map_of result V = Some c"
  shows "map_of tr V = Some c"
  using assms
proof (induction fvs arbitrary: tr ws)
  case Nil
  then show ?case by simp
next
  case (Cons fv fvs)
  obtain c' where c': "map_of tr fv = Some c'"
    using Cons.prems(1) by (cases "map_of tr fv") auto
  show ?case
  proof (cases "actual c' \<noteq> expected c'")
    case True
    then have "drop_future (AList.delete fv tr) (ws @ skip_warnings fv) fvs = (Inr result, ws')"
      using Cons.prems(1) c' by simp
    then have "map_of (AList.delete fv tr) V = Some c"
      using Cons.IH Cons.prems(2) by blast
    then show ?thesis
      by (simp add: delete_conv split: if_splits)
  next
    case False
    then have "drop_future tr ws fvs = (Inr result, ws')"
      using Cons.prems(1) c' by simp
    then show ?thesis
      using Cons.IH Cons.prems(2) by blast
  qed
qed

lemma props_all_Inr:
  assumes "\<forall>k v. (k, v) \<in> set ops \<longrightarrow> v = Inr (g k)"
  shows "props ops = Inr (map (\<lambda>kv. (fst kv, g (fst kv))) ops)"
  using assms by (induction ops rule: props.induct) auto

lemma count_versions_preserve:
  assumes "count_versions fs cur acc xs = Inr tr" and "k \<notin> fst ` set xs"
  shows "map_of tr k = map_of acc k"
  using assms
proof (induction xs arbitrary: cur acc)
  case Nil
  then show ?case by simp
next
  case (Cons x xs)
  obtain version rows where x: "x = (version, rows)"
    by (cases x) auto
  show ?case
    using Cons.prems Cons.IH unfolding x
    by (auto simp: Let_def update_conv' split: sum.splits)
qed

lemma count_versions_entry:
  assumes "count_versions fs cur acc xs = Inr tr" and "''init'' \<notin> fst ` set xs"
    and "distinct (map fst xs)" and "(k, rk) \<in> set xs"
  shows "\<exists>e. expected_of fs cur k (length rk) = Inr e
              \<and> map_of tr k = Some \<lparr>expected = e, actual = length rk\<rparr>"
  using assms
proof (induction xs arbitrary: acc)
  case Nil
  then show ?case by simp
next
  case (Cons x xs)
  obtain version rows where x: "x = (version, rows)"
    by (cases x) auto
  have vi: "version \<noteq> ''init''"
    using Cons.prems(2) x by auto
  obtain e where e: "expected_of fs cur version (length rows) = Inr e"
    and rest: "count_versions fs cur (AList.update version \<lparr>expected = e, actual = length rows\<rparr> acc) xs = Inr tr"
    using Cons.prems(1) vi unfolding x by (auto simp: Let_def split: sum.splits)
  show ?case
  proof (cases "(k, rk) = (version, rows)")
    case True
    have "k \<notin> fst ` set xs"
      using Cons.prems(3) True x by auto
    then have "map_of tr k = Some \<lparr>expected = e, actual = length rows\<rparr>"
      using count_versions_preserve[OF rest] True by (simp add: update_conv')
    then show ?thesis
      using e True by auto
  next
    case False
    then have "(k, rk) \<in> set xs"
      using Cons.prems(4) x by auto
    then show ?thesis
      using Cons.IH[OF rest] Cons.prems(2,3) by auto
  qed
qed

lemma count_versions_append:
  assumes "''init'' \<notin> fst ` set xs"
  shows "count_versions fs cur acc (xs @ ys)
    = (case count_versions fs cur acc xs of Inl err \<Rightarrow> Inl err | Inr tr \<Rightarrow> count_versions fs cur tr ys)"
  using assms
proof (induction xs arbitrary: acc)
  case Nil
  then show ?case by simp
next
  case (Cons x xs)
  obtain version rows where x: "x = (version, rows)"
    by (cases x) auto
  show ?case
    using Cons.prems Cons.IH unfolding x
    by (auto simp: Let_def split: sum.splits)
qed

lemma distinct_keys_sort_key: "distinct (map fst (sort_key h ys)) = distinct (map fst ys)"
  by (simp add: distinct_map)

lemma toReturn_entry:
  assumes tc: "toReturn_counts m fs force d = Inr toReturn" and V: "map_of toReturn V = Some c"
    and ni: "V \<noteq> ''init''" and rows: "migrations d = Some rows"
  shows "\<exists>e. expected_of fs (if is_array_index V then [] else init_baseline (filter (\<lambda>r. row_version r = ''init'') rows))
              V (length (filter (\<lambda>r. row_version r = V) rows)) = Inr e
           \<and> c = \<lparr>expected = e, actual = length (filter (\<lambda>r. row_version r = V) rows)\<rparr>"
proof -
  define g where "g k = filter (\<lambda>r. row_version r = k) rows" for k
  define sc where "sc = scan_folders m fs force d"
  define idx where "idx = (\<lambda>kv :: string \<times> migration_row list. is_array_index (fst kv))"
  have inv: "scan_inv m force d sc"
    by (simp add: sc_def scan_folders_inv)
  have wv: "where_version d k = Inr (g k)" for k
    using rows by (simp add: where_version_def select_migrations_def g_def)
  obtain rest where ops: "operations sc = (''init'', Inr (g ''init'')) # rest"
    using inv wv by (auto simp: scan_inv_def)
  have dist: "distinct (map fst (operations sc))"
    using inv by (simp add: scan_inv_def)
  have vals: "\<forall>k v. (k, v) \<in> set (operations sc) \<longrightarrow> v = Inr (g k)"
    using inv dist wv by (auto simp: scan_inv_def)
  define res' where "res' = map (\<lambda>kv. (fst kv, g (fst kv))) rest"
  have res: "props (operations sc) = Inr ((''init'', g ''init'') # res')"
    using props_all_Inr[OF vals] by (simp add: ops res'_def)
  have keys': "map fst res' = map fst rest"
    by (simp add: res'_def comp_def)
  have dist': "distinct (map fst res')"
    using dist ops by (simp add: keys')
  have "''init'' \<notin> set (map fst res')"
    using dist ops by (simp add: keys')
  then have init': "''init'' \<notin> fst ` set res'"
    by simp
  have entries: "rk = g k" if "(k, rk) \<in> set res'" for k rk
    using that by (auto simp: res'_def)
  define S where "S = sort_key (\<lambda>kv. digits_val (fst kv)) (filter idx res')"
  define N where "N = filter (\<lambda>kv. \<not> idx kv) res'"
  have order: "own_keys_order ((''init'', g ''init'') # res') = S @ (''init'', g ''init'') # N"
    by (simp add: own_keys_order_def S_def N_def idx_def)
  have setS: "set S = {kv \<in> set res'. idx kv}" and setN: "set N = {kv \<in> set res'. \<not> idx kv}"
    by (auto simp: S_def N_def)
  have distS: "distinct (map fst S)"
    unfolding S_def using dist' by (simp add: distinct_keys_sort_key distinct_map_filter)
  have distN: "distinct (map fst N)"
    unfolding N_def using dist' by (simp add: distinct_map_filter)
  have initS: "''init'' \<notin> fst ` set S" and initN: "''init'' \<notin> fst ` set N"
    using init' setS setN by auto
  have run: "count_versions fs [] [] (S @ (''init'', g ''init'') # N) = Inr toReturn"
    using tc res order by (simp add: toReturn_counts_def sc_def)
  obtain tr1 where tr1: "count_versions fs [] [] S = Inr tr1"
    and run2: "count_versions fs [] tr1 ((''init'', g ''init'') # N) = Inr toReturn"
    using run count_versions_append[OF initS, of fs "[]" "[]" "(''init'', g ''init'') # N"]
    by (auto split: sum.splits)
  obtain tr2 where run3: "count_versions fs (init_baseline (g ''init'')) tr2 N = Inr toReturn"
    using run2 by (auto simp: Let_def split: sum.splits)
  have "V \<in> fst ` set toReturn"
    using map_of_SomeD[OF V] by force
  then have "V \<in> fst ` set res'"
    using count_versions_keys[OF run] ni setS setN by auto
  then have mem: "(V, g V) \<in> set res'"
    using entries by force
  show ?thesis
  proof (cases "is_array_index V")
    case True
    then have inS: "(V, g V) \<in> set S"
      using mem setS by (simp add: idx_def)
    obtain e where e: "expected_of fs [] V (length (g V)) = Inr e"
      and m1: "map_of tr1 V = Some \<lparr>expected = e, actual = length (g V)\<rparr>"
      using count_versions_entry[OF tr1 initS distS inS] by auto
    have "V \<notin> fst ` set ((''init'', g ''init'') # N)"
      using ni True setN by (auto simp: idx_def)
    then have "map_of toReturn V = map_of tr1 V"
      using count_versions_preserve[OF run2] by simp
    then show ?thesis
      using e m1 V True by (simp add: g_def)
  next
    case False
    then have inN: "(V, g V) \<in> set N"
      using mem setN by (simp add: idx_def)
    obtain e where e: "expected_of fs (init_baseline (g ''init'')) V (length (g V)) = Inr e"
      and m1: "map_of toReturn V = Some \<lparr>expected = e, actual = length (g V)\<rparr>"
      using count_versions_entry[OF run3 initN distN inN] by auto
    then show ?thesis
      using V False by (simp add: g_def)
  qed
qed

text \<open>
  Claim C2, as amended. For every version other than init in the result, the executed
  count is the number of ledger rows of that version, and the expected count is the
  number of task files on disk when the version is strictly greater than the version
  recorded on the first init row (no init row: the absent version), and the executed
  count otherwise. A version key that is an array index is met before the init entry
  and is compared with the absent version.
\<close>

theorem expected_counts:
  assumes "fst (integrityCheck m fs force d) = Inr result" and "map_of result V = Some c"
    and "V \<noteq> ''init''" and "migrations d = Some rows"
  shows "actual c = length (filter (\<lambda>r. row_version r = V) rows)
     \<and> (if isGreaterThanVersion
             (if is_array_index V then [] else init_baseline (filter (\<lambda>r. row_version r = ''init'') rows)) V
        then (\<exists>ts. version_dir fs V = Some ts \<and> expected c = length ts)
        else expected c = actual c)"
proof -
  obtain toReturn ws where tc: "toReturn_counts m fs force d = Inr toReturn"
    and df: "drop_future toReturn (warnings (scan_folders m fs force d))
                (futureVersions (scan_folders m fs force d)) = (Inr result, ws)"
    using assms(1)
    by (cases "toReturn_counts m fs force d";
        cases "drop_future (projr (toReturn_counts m fs force d)) (warnings (scan_folders m fs force d))
                (futureVersions (scan_folders m fs force d))")
       (auto simp: integrityCheck_def Let_def)
  have "map_of toReturn V = Some c"
    using drop_future_subset[OF df assms(2)] .
  then obtain e where e: "expected_of fs (if is_array_index V then [] else init_baseline (filter (\<lambda>r. row_version r = ''init'') rows))
              V (length (filter (\<lambda>r. row_version r = V) rows)) = Inr e"
    and c: "c = \<lparr>expected = e, actual = length (filter (\<lambda>r. row_version r = V) rows)\<rparr>"
    using toReturn_entry[OF tc _ assms(3,4)] by blast
  show ?thesis
    using e c assms(3)
    by (auto simp: expected_of_def readTasks_version_def split: if_splits option.splits)
qed

lemma match_0_9: "match_version ''0.9'' = Some ''0.9''"
  by (simp add: match_version_def is_version_char_def is_digit_def)

lemma not_index_0_9: "\<not> is_array_index ''0.9''"
  by (simp add: is_array_index_def is_digit_def)

lemma not_gt_1_0_0_9: "\<not> isGreaterThanVersion ''1.0'' ''0.9''"
  by (simp add: isGreaterThanVersion_def version_components_def match_version_def is_version_char_def
      is_digit_def digits_val_def digit_val_def)

lemma not_gt_1_1_0_9: "\<not> isGreaterThanVersion ''1.1'' ''0.9''"
  by (simp add: isGreaterThanVersion_def version_components_def match_version_def is_version_char_def
      is_digit_def digits_val_def digit_val_def)

lemma scan_folders_two_versions:
  "scan_folders migrator_1_1 fs_two_versions False initialised_db
     = \<lparr>futureVersions = [],
        operations = [(''init'', where_version initialised_db ''init''),
                      (''0.9'', where_version initialised_db ''0.9''),
                      (''1.1'', where_version initialised_db ''1.1'')],
        warnings = []\<rparr>"
  by (simp add: scan_folders_def folders_of_def readFolders_def fs_two_versions_def scan_folder_def
      migrator_1_1_def match_1_1 match_0_9 not_gt_1_1_1_1 not_gt_1_1_0_9)

lemma toReturn_counts_two_versions:
  "toReturn_counts migrator_1_1 fs_two_versions False initialised_db
     = Inr [(''init'', \<lparr>expected = 1, actual = 1\<rparr>), (''0.9'', \<lparr>expected = 0, actual = 0\<rparr>),
            (''1.1'', \<lparr>expected = 2, actual = 0\<rparr>)]"
  unfolding toReturn_counts_def scan_folders_two_versions
  by (simp add: where_version_def select_migrations_def
      initialised_db_def ledger_row_def own_keys_order_def expected_of_def readTasks_init_def
      readTasks_version_def init_baseline_def fs_two_versions_def not_index_1_1 not_index_0_9
      gt_1_0_1_1 not_gt_1_0_0_9)

lemma integrityCheck_two_versions:
  "integrityCheck migrator_1_1 fs_two_versions False initialised_db
     = (Inr [(''init'', \<lparr>expected = 1, actual = 1\<rparr>), (''0.9'', \<lparr>expected = 0, actual = 0\<rparr>),
             (''1.1'', \<lparr>expected = 2, actual = 0\<rparr>)], [])"
  by (simp add: integrityCheck_def toReturn_counts_two_versions scan_folders_two_versions)

text \<open>
  Claim C2 as stated has the comparison the wrong way round. Initialised at 1.0:
  version 0.9, below the baseline, has one task file and yet expects what was executed,
  nothing; version 1.1, above the baseline, expects its two task files.
\<close>

theorem expected_counts_counterexample:
  "fst (integrityCheck migrator_1_1 fs_two_versions False initialised_db)
     = Inr [(''init'', \<lparr>expected = 1, actual = 1\<rparr>), (''0.9'', \<lparr>expected = 0, actual = 0\<rparr>),
            (''1.1'', \<lparr>expected = 2, actual = 0\<rparr>)]
   \<and> migrations initialised_db = Some [ledger_row ''1-a'' ''init'' ''1.0'']
   \<and> init_baseline [ledger_row ''1-a'' ''init'' ''1.0''] = ''1.0''
   \<and> \<not> isGreaterThanVersion ''1.0'' ''0.9''
   \<and> version_dir fs_two_versions ''0.9'' = Some [insert_task ''1-old'']
   \<and> isGreaterThanVersion ''1.0'' ''1.1''
   \<and> version_dir fs_two_versions ''1.1'' = Some [insert_task ''1-x'', insert_task ''2-y'']"
  unfolding integrityCheck_two_versions
  by (simp add: initialised_db_def init_baseline_def ledger_row_def
      not_gt_1_0_0_9 gt_1_0_1_1 fs_two_versions_def)

theorem expected_counts_witness:
  "fst (integrityCheck migrator_1_1 fs_two_versions False initialised_db)
     = Inr [(''init'', \<lparr>expected = 1, actual = 1\<rparr>), (''0.9'', \<lparr>expected = 0, actual = 0\<rparr>),
            (''1.1'', \<lparr>expected = 2, actual = 0\<rparr>)]
   \<and> map_of [(''init'', \<lparr>expected = 1, actual = 1\<rparr>), (''0.9'', \<lparr>expected = 0, actual = 0\<rparr>),
            (''1.1'', \<lparr>expected = 2, actual = 0\<rparr>)] ''1.1'' = Some \<lparr>expected = 2, actual = 0\<rparr>
   \<and> ''1.1'' \<noteq> ''init''
   \<and> migrations initialised_db = Some [ledger_row ''1-a'' ''init'' ''1.0'']
   \<and> actual \<lparr>expected = 2, actual = 0\<rparr>
       = length (filter (\<lambda>r. row_version r = ''1.1'') [ledger_row ''1-a'' ''init'' ''1.0''])
   \<and> (\<exists>ts. version_dir fs_two_versions ''1.1'' = Some ts \<and> expected \<lparr>expected = 2, actual = 0\<rparr> = length ts)"
proof -
  have h1: "fst (integrityCheck migrator_1_1 fs_two_versions False initialised_db)
     = Inr [(''init'', \<lparr>expected = 1, actual = 1\<rparr>), (''0.9'', \<lparr>expected = 0, actual = 0\<rparr>),
            (''1.1'', \<lparr>expected = 2, actual = 0\<rparr>)]"
    by (simp add: integrityCheck_two_versions)
  have h2: "map_of [(''init'', \<lparr>expected = 1, actual = 1\<rparr>), (''0.9'', \<lparr>expected = 0, actual = 0\<rparr>),
            (''1.1'', \<lparr>expected = 2, actual = 0\<rparr>)] ''1.1'' = Some \<lparr>expected = 2, actual = 0\<rparr>"
    by simp
  have h3: "''1.1'' \<noteq> ''init''"
    by simp
  have h4: "migrations initialised_db = Some [ledger_row ''1-a'' ''init'' ''1.0'']"
    by (simp add: initialised_db_def)
  have base: "init_baseline (filter (\<lambda>r. row_version r = ''init'') [ledger_row ''1-a'' ''init'' ''1.0'']) = ''1.0''"
    by (simp add: init_baseline_def ledger_row_def)
  have c: "actual \<lparr>expected = 2, actual = 0\<rparr>
       = length (filter (\<lambda>r. row_version r = ''1.1'') [ledger_row ''1-a'' ''init'' ''1.0''])
     \<and> (\<exists>ts. version_dir fs_two_versions ''1.1'' = Some ts \<and> expected \<lparr>expected = 2, actual = 0\<rparr> = length ts)"
    using expected_counts[OF h1 h2 h3 h4] by (simp only: not_index_1_1 base gt_1_0_1_1 if_False if_True)
  show ?thesis
    using h1 h2 h3 h4 c by blast
qed

subsection \<open>transactional and implicit commits\<close>















subsection \<open>unlock on the way out\<close>

lemma extends_refl [simp]: "extends st st"
  by (simp add: extends_def)

lemma extends_trans: "extends a b \<Longrightarrow> extends b c \<Longrightarrow> extends a c"
  by (auto simp: extends_def)

lemma extends_emit [simp]: "extends st (emit evs st)"
  by (simp add: extends_def)

lemma extends_db_update [simp]: "extends st (s\<lparr>db := d\<rparr>) = extends st s"
  by (simp add: extends_def)

lemma then_p_extends:
  assumes "extends st (snd p)" and "\<And>a s. extends s (snd (f a s))"
  shows "extends st (snd (then_p p f))"
proof (cases p)
  case (Pair r s)
  then show ?thesis
    using assms extends_trans[of st s "snd (f a s)" for a]
    by (cases r) auto
qed

lemma catch_p_extends:
  assumes "extends st (snd p)" and "\<And>e s. extends s (snd (h e s))"
  shows "extends st (snd (catch_p p h))"
proof (cases p)
  case (Pair r s)
  then show ?thesis
    using assms extends_trans[of st s "snd (h e s)" for e]
    by (cases r) auto
qed

lemma query_extends [simp]: "extends st (snd (query q st))"
  by (simp add: query_def split: sum.splits)

lemma statement_extends [simp]: "extends st (snd (statement q st))"
  by (simp add: statement_def split: sum.splits)

lemma user_code_extends [simp]: "extends st (snd (user_code f st))"
  by (simp add: user_code_def split: prod.splits)

lemma run_hook_extends [simp]: "extends st (snd (run_hook h evs st))"
proof (cases h)
  case None
  then show ?thesis by (simp add: run_hook_def)
next
  case (Some f)
  have "extends (emit evs st) (snd (user_code f (emit evs st)))"
    by simp
  then have "extends st (snd (user_code f (emit evs st)))"
    by (rule extends_trans[OF extends_emit])
  then show ?thesis
    using Some by (simp add: run_hook_def)
qed

lemma each_p_preorder:
  assumes "\<And>s. R s s" and "\<And>a b c. R a b \<Longrightarrow> R b c \<Longrightarrow> R a c"
    and "\<And>x s. R s (snd (f x s))"
  shows "R st (snd (each_p f xs st))"
proof (induction xs arbitrary: st)
  case Nil
  then show ?case by (simp add: assms(1))
next
  case (Cons x xs)
  obtain r s1 where fx: "f x st = (r, s1)"
    by (cases "f x st") auto
  have e1: "R st s1"
    using assms(3)[of st x] fx by simp
  show ?case
  proof (cases r)
    case (Resolved u)
    then show ?thesis
      using fx assms(2)[OF e1 Cons.IH[of s1]] by simp
  next
    case (Rejected err)
    then show ?thesis
      using fx e1 by simp
  qed
qed

lemma each_p_extends:
  assumes "\<And>x s. extends s (snd (f x s))"
  shows "extends st (snd (each_p f xs st))"
  by (rule each_p_preorder[where R = extends]) (auto intro: extends_trans assms)

lemma unlock_trace: "\<exists>evs. trace (snd (unlock m st)) = trace st @ Unlock # evs"
  by (simp add: unlock_def statement_def split: sum.splits)

lemma unlock_extends [simp]: "extends st (snd (unlock m st))"
  using unlock_trace[of m st] by (auto simp: extends_def)

lemma lock_locked_since: "locked_since st (snd (lock st))"
  by (simp add: lock_def then_p_def query_def locked_since_def split: sum.splits)

lemma locked_since_extends: "locked_since st a \<Longrightarrow> extends a b \<Longrightarrow> locked_since st b"
  by (auto simp: locked_since_def extends_def)

lemma then_p_locked_since:
  assumes "locked_since st (snd p)" and "\<And>a s. extends s (snd (f a s))"
  shows "locked_since st (snd (then_p p f))"
proof (cases p)
  case (Pair r s)
  then show ?thesis
    using assms locked_since_extends[of st s "snd (f a s)" for a]
    by (cases r) auto
qed

lemma beforeEachTask_extends [simp]: "extends st (snd (beforeEachTask n v st))"
  unfolding beforeEachTask_def by (rule then_p_extends) simp_all

lemma afterEachTask_extends [simp]: "extends st (snd (afterEachTask m n v st))"
  by (simp add: afterEachTask_def)

lemma task_chain_extends [simp]: "extends st (snd (task_chain m hks v t st))"
  unfolding task_chain_def
  by (intro then_p_extends beforeEachTask_extends run_hook_extends afterEachTask_extends
        extends_trans[OF extends_emit user_code_extends])


lemma executeTask_extends: "extends (fst s) (fst (snd (executeTask m hks v task_opt s)))"
proof (cases task_opt)
  case None
  then show ?thesis by (simp add: executeTask_def)
next
  case (Some t)
  obtain r st' where tc: "task_chain m hks v t (fst s) = (r, st')"
    by (cases "task_chain m hks v t (fst s)") auto
  have "extends (fst s) st'"
    using task_chain_extends[of "fst s" m hks v t] tc by simp
  then show ?thesis
    using Some tc extends_trans[OF _ extends_emit] by (cases r) (auto simp: executeTask_def)
qed

lemma each_executeTask_extends:
  "extends (fst s) (fst (snd (each_p (executeTask m hks v) tasks s)))"
  by (rule each_p_preorder[where R = "\<lambda>a b. extends (fst a) (fst b)"])
     (auto intro: extends_trans executeTask_extends)

lemma backfill_file_extends [simp]: "extends st (snd (backfill_file m v f st))"
  unfolding backfill_file_def by (rule then_p_extends) (simp_all split: if_splits)

lemma backfill_version_extends [simp]: "extends st (snd (backfill_version m fs v st))"
  by (simp add: backfill_version_def each_p_extends split: sum.splits)

lemma backfill_extends [simp]: "extends st (snd (backfill m fs vs st))"
  by (simp add: backfill_def each_p_extends)

lemma migrateTo_extends [simp]: "extends st (snd (migrateTo m fs opts st))"
proof (cases "read_tasks_for fs (mt_version opts)")
  case (Inl err)
  then show ?thesis by (simp add: migrateTo_def)
next
  case (Inr all_tasks)
  define tasks where "tasks = select_tasks (mt_only opts) (mt_skip opts) all_tasks"
  define s0 where "s0 = (emit [MigrateTo (mt_version opts) (length tasks)] st, [] :: string list)"
  obtain r st1 sk1 where run: "each_p (executeTask m (mt_hooks opts) (mt_version opts)) tasks s0 = (r, st1, sk1)"
    by (cases "each_p (executeTask m (mt_hooks opts) (mt_version opts)) tasks s0") auto
  have "extends (fst s0) st1"
    using each_executeTask_extends[of s0 m "mt_hooks opts" "mt_version opts" tasks] run by simp
  then have e1: "extends st st1"
    using extends_trans[OF extends_emit] by (simp add: s0_def)
  have e2: "extends st (snd (backfill m fs vs st1))" for vs
    using extends_trans[OF e1 backfill_extends] .
  show ?thesis
    using Inr run e1 e2
    by (cases r) (auto simp: migrateTo_def Let_def tasks_def s0_def split: sum.splits)
qed

lemma integrityCheck_p_extends [simp]: "extends st (snd (integrityCheck_p m fs force st))"
  by (simp add: integrityCheck_p_def split: prod.splits sum.splits)

lemma find_requested_extends [simp]: "extends st (snd (find_requested options result st))"
  by (simp add: find_requested_def split: option.splits)

lemma unlock_after_lock:
  assumes "locked_since st (snd body)"
    and "catch_p (then_p body (\<lambda>u. unlock m)) (unlock_and_rethrow m) = (r, s')"
    and "r \<noteq> Rejected MigrationsAreLocked"
  shows "\<exists>xs ys. trace s' = trace st @ Lock # xs @ Unlock # ys"
proof -
  obtain rb sb where body: "body = (rb, sb)"
    by (cases body) auto
  obtain xs where xs: "trace sb = trace st @ Lock # xs"
    using assms(1) body by (auto simp: locked_since_def)
  have rethrow: "\<exists>ys. trace (snd (unlock_and_rethrow m e s)) = trace s @ Unlock # ys"
    if "fst (unlock_and_rethrow m e s) \<noteq> Rejected MigrationsAreLocked" for e s
  proof (cases "e = MigrationsAreLocked")
    case True
    then show ?thesis
      using that by (simp add: unlock_and_rethrow_def)
  next
    case False
    obtain ru su where u: "unlock m s = (ru, su)"
      by (cases "unlock m s") auto
    then show ?thesis
      using False unlock_trace[of m s] by (cases ru) (auto simp: unlock_and_rethrow_def)
  qed
  show ?thesis
  proof (cases rb)
    case (Rejected e)
    then have "unlock_and_rethrow m e sb = (r, s')"
      using assms(2) body by simp
    then show ?thesis
      using rethrow[of e sb] assms(3) xs by auto
  next
    case (Resolved u)
    obtain ru su where un: "unlock m sb = (ru, su)"
      by (cases "unlock m sb") auto
    obtain ys where ys: "trace su = trace sb @ Unlock # ys"
      using unlock_trace[of m sb] un by auto
    show ?thesis
    proof (cases ru)
      case (Resolved u')
      then have "s' = su"
        using assms(2) body \<open>rb = Resolved u\<close> un by simp
      then show ?thesis
        using xs ys by auto
    next
      case (Rejected e)
      then have "unlock_and_rethrow m e su = (r, s')"
        using assms(2) body \<open>rb = Resolved u\<close> un by simp
      then obtain zs where "trace s' = trace su @ Unlock # zs"
        using rethrow[of e su] assms(3) by auto
      then show ?thesis
        using xs ys by auto
    qed
  qed
qed

text \<open>
  Claim C5, as amended. \<open>migrate_tasks\<close> and \<open>init_tasks\<close> are the callbacks the two
  runs hand to the transaction, starting with \<^verbatim>\<open>lock\<close>. However such a callback
  settles, resolved or rejected with any error but \<^verbatim>\<open>MigrationsAreLocked\<close>, \<^verbatim>\<open>unlock\<close>
  has been called after \<^verbatim>\<open>lock\<close>; the handler rethrows \<^verbatim>\<open>MigrationsAreLocked\<close> as it
  is.
\<close>

theorem unlock_on_every_exit:
  assumes "migrate_tasks m fs options hks st = (r, s') \<or> init_tasks m fs ioptions hks st = (r, s')"
    and "r \<noteq> Rejected MigrationsAreLocked"
  shows "\<exists>xs ys. trace s' = trace st @ Lock # xs @ Unlock # ys"
proof -
  have mig: "locked_since st (snd
       (then_p (then_p (then_p (then_p (then_p
          (lock st)
          (\<lambda>u. integrityCheck_p m fs (mo_force options)))
          (find_requested options))
          (\<lambda>vs st. if vs = [] then (Resolved vs, st)
                    else then_p (run_hook (before hks) [BeforeHook] st) (\<lambda>u. Pair (Resolved vs))))
          (\<lambda>vs st. if vs = [] then (Resolved vs, st)
                    else then_p
                      (each_p (\<lambda>versionToMigrate. migrateTo m fs
                                 \<lparr>mt_version = versionToMigrate, mt_only = onlyFile options,
                                  mt_skip = None, mt_hooks = hks\<rparr>) vs st)
                      (\<lambda>u. Pair (Resolved vs))))
          (\<lambda>vs st. if vs = [] then (Resolved (), st) else run_hook (after hks) [AfterHook] st)))"
    by (intro then_p_locked_since lock_locked_since)
       (auto intro!: then_p_extends each_p_extends)
  have ini: "locked_since st (snd
       (then_p (then_p (then_p
          (lock st)
          (\<lambda>u. run_hook (before hks) [BeforeHook]))
          (\<lambda>u. migrateTo m fs
                  \<lparr>mt_version = ''init'', mt_only = io_only ioptions, mt_skip = io_skip ioptions,
                   mt_hooks = no_hooks\<rparr>))
          (\<lambda>u. run_hook (after hks) [AfterHook])))"
    by (intro then_p_locked_since lock_locked_since) auto
  show ?thesis
    using assms(1)
  proof
    assume "migrate_tasks m fs options hks st = (r, s')"
    then show ?thesis
      using unlock_after_lock[OF mig _ assms(2)] by (simp add: migrate_tasks_def)
  next
    assume "init_tasks m fs ioptions hks st = (r, s')"
    then show ?thesis
      using unlock_after_lock[OF ini _ assms(2)] by (simp add: init_tasks_def)
  qed
qed

lemma integrityCheck_cong:
  assumes "currentVersion m = currentVersion m'"
  shows "integrityCheck m fs force d = integrityCheck m' fs force d"
proof -
  have "scan_folder m force d = scan_folder m' force d"
    using assms by (intro ext) (simp add: scan_folder_def split: option.splits)
  then show ?thesis
    by (simp add: integrityCheck_def toReturn_counts_def scan_folders_def)
qed

lemma lock_initialised:
  "lock \<lparr>db = initialised_db, trace = tr\<rparr>
     = (Resolved (), \<lparr>db = initialised_db, trace = tr @ [Lock, LockData [km01 None None]]\<rparr>)"
  by (simp add: lock_def query_def select_lock_def initialised_db_def km01_def emit_def)

lemma versionsToMigrate_two_versions:
  "versionsToMigrate [(''init'', \<lparr>expected = 1, actual = 1\<rparr>), (''0.9'', \<lparr>expected = 0, actual = 0\<rparr>),
             (''1.1'', \<lparr>expected = 2, actual = 0\<rparr>)] = [''1.1'']"
  by (simp add: versionsToMigrate_def own_keys_order_def not_index_1_1 not_index_0_9)

lemma migrate_tasks_locked_hook:
  "migrate_tasks migrator_locked_hook fs_two_versions plain_migrate (migrate_hooks migrator_locked_hook) st_start
     = (Rejected MigrationsAreLocked,
        \<lparr>db = initialised_db, trace = [Lock, LockData [km01 None None], BeforeHook]\<rparr>)"
proof -
  have ic: "integrityCheck migrator_locked_hook fs_two_versions False initialised_db
     = (Inr [(''init'', \<lparr>expected = 1, actual = 1\<rparr>), (''0.9'', \<lparr>expected = 0, actual = 0\<rparr>),
             (''1.1'', \<lparr>expected = 2, actual = 0\<rparr>)], [])"
  proof -
    have "currentVersion migrator_locked_hook = currentVersion migrator_1_1"
      by (simp add: migrator_locked_hook_def migrator_1_1_def)
    then show ?thesis
      by (simp only: integrityCheck_cong[of migrator_locked_hook migrator_1_1] integrityCheck_two_versions)
  qed
  have hk: "before (migrate_hooks migrator_locked_hook) = Some (\<lambda>d. (Rejected MigrationsAreLocked, d))"
    by (simp add: migrator_locked_hook_def no_hooks_def)
  show ?thesis
    unfolding migrate_tasks_def st_start_def lock_initialised
    by (simp add: integrityCheck_p_def ic find_requested_def versionsToMigrate_def own_keys_order_def
        not_index_1_1 not_index_0_9
        plain_migrate_def hk run_hook_def user_code_def unlock_and_rethrow_def emit_def)
qed

text \<open>
  Claim C5 as stated fails on the path the handler lets through: a \<^verbatim>\<open>before\<close> hook that
  throws \<^verbatim>\<open>MigrationsAreLocked\<close> after \<^verbatim>\<open>lock\<close> has resolved ends the run without
  \<^verbatim>\<open>unlock\<close>.
\<close>

theorem no_unlock_when_hook_throws_locked:
  "migrate migrator_locked_hook fs_two_versions plain_migrate st_start
     = (Rejected MigrationsAreLocked,
        \<lparr>db = initialised_db, trace = [Lock, LockData [km01 None None], BeforeHook, DestroyConnection]\<rparr>)"
proof -
  have sh: "shutdown (migrate_hooks migrator_locked_hook) = None"
    by (simp add: migrator_locked_hook_def no_hooks_def)
  have no_init: "\<not> mo_init plain_migrate"
    by (simp add: plain_migrate_def)
  have start: "db st_start = initialised_db"
    by (simp add: st_start_def)
  show ?thesis
    by (simp add: migrate_def no_init migrate_run_def createTransaction_def
        migrate_tasks_locked_hook finally_p_def sh start emit_def)
qed

lemma versionsToMigrate_future:
  "versionsToMigrate [(''init'', \<lparr>expected = 1, actual = 1\<rparr>)] = []"
  by (simp add: versionsToMigrate_def own_keys_order_def)

lemma unlock_initialised:
  "unlock migrator_1_0 \<lparr>db = initialised_db, trace = tr\<rparr>
     = (Resolved (), \<lparr>db = initialised_db\<lparr>migrations_lock := Some [km01 None (Some 7)]\<rparr>,
                      trace = tr @ [Unlock]\<rparr>)"
  by (simp add: unlock_def statement_def update_released_at_def initialised_db_def km01_def emit_def
      migrator_1_0_def)

lemma migrate_tasks_nothing_pending:
  "migrate_tasks migrator_1_0 fs_same_name plain_migrate no_hooks st_start
     = (Resolved (),
        \<lparr>db = initialised_db\<lparr>migrations_lock := Some [km01 None (Some 7)]\<rparr>,
         trace = [Lock, LockData [km01 None None]] @ map Warn (skip_warnings ''1.1'') @ [Unlock]\<rparr>)"
  unfolding migrate_tasks_def st_start_def lock_initialised
  by (simp add: integrityCheck_p_def integrityCheck_future find_requested_def versionsToMigrate_def
      own_keys_order_def plain_migrate_def emit_def unlock_initialised)

theorem unlock_on_every_exit_witness:
  "migrate_tasks migrator_1_0 fs_same_name plain_migrate no_hooks st_start
     = (Resolved (),
        \<lparr>db = initialised_db\<lparr>migrations_lock := Some [km01 None (Some 7)]\<rparr>,
         trace = [Lock, LockData [km01 None None]] @ map Warn (skip_warnings ''1.1'') @ [Unlock]\<rparr>)
   \<and> Resolved () \<noteq> Rejected MigrationsAreLocked
   \<and> (\<exists>xs ys. [Lock, LockData [km01 None None]] @ map Warn (skip_warnings ''1.1'') @ [Unlock]
                = trace st_start @ Lock # xs @ Unlock # ys)"
proof -
  have h2: "Resolved () \<noteq> Rejected MigrationsAreLocked"
    by simp
  have "\<exists>xs ys. trace \<lparr>db = initialised_db\<lparr>migrations_lock := Some [km01 None (Some 7)]\<rparr>,
         trace = [Lock, LockData [km01 None None]] @ map Warn (skip_warnings ''1.1'') @ [Unlock]\<rparr>
      = trace st_start @ Lock # xs @ Unlock # ys"
    using unlock_on_every_exit[OF disjI1[OF migrate_tasks_nothing_pending] h2] .
  then show ?thesis
    using migrate_tasks_nothing_pending by simp
qed

subsection \<open>Running migrate again\<close>

lemma then_p_ensures:
  assumes "ensures A Q p" and "\<And>a s. A a \<Longrightarrow> Q s \<Longrightarrow> ensures B Q (f a s)"
  shows "ensures B Q (then_p p f)"
proof (cases p)
  case (Pair r s)
  then show ?thesis
    using assms by (cases r) (auto simp: ensures_def)
qed

lemma catch_p_ensures:
  assumes "ensures A Q p" and "\<And>e s. Q s \<Longrightarrow> ensures A Q (h e s)"
  shows "ensures A Q (catch_p p h)"
proof (cases p)
  case (Pair r s)
  then show ?thesis
    using assms by (cases r) (auto simp: ensures_def)
qed

lemma ensures_weaken: "ensures A Q p \<Longrightarrow> (\<And>a. A a \<Longrightarrow> B a) \<Longrightarrow> ensures B Q p"
  by (auto simp: ensures_def)

lemma integrityCheck_migrations_cong:
  assumes "migrations d = migrations d'"
  shows "integrityCheck m fs force d = integrityCheck m fs force d'"
proof -
  have "where_version d = where_version d'"
    using assms by (intro ext) (simp add: where_version_def select_migrations_def)
  then have "scan_folder m force d = scan_folder m force d'"
    by (intro ext) (simp add: scan_folder_def split: option.splits)
  then show ?thesis
    by (simp add: integrityCheck_def toReturn_counts_def scan_folders_def)
qed

lemma untouched_emit:
  assumes "untouched rows st s" and "\<forall>ev \<in> set evs. \<not> is_Running ev"
  shows "untouched rows st (emit evs s)"
  using assms by (simp add: untouched_def)

lemma lock_untouched:
  assumes "untouched rows st s"
  shows "ensures (\<lambda>u. True) (untouched rows st) (lock s)"
  using assms
  by (auto simp: lock_def query_def ensures_def untouched_def split: sum.splits)

lemma unlock_untouched:
  assumes "untouched rows st s"
  shows "ensures (\<lambda>u. True) (untouched rows st) (unlock m s)"
  using assms
  by (auto simp: unlock_def statement_def update_released_at_def ensures_def untouched_def
      split: sum.splits option.splits)

lemma unlock_and_rethrow_untouched:
  assumes "untouched rows st s"
  shows "ensures A (untouched rows st) (unlock_and_rethrow m e s)"
proof (cases "e = MigrationsAreLocked")
  case True
  then show ?thesis
    using assms by (simp add: unlock_and_rethrow_def ensures_def)
next
  case False
  obtain r s1 where u: "unlock m s = (r, s1)"
    by (cases "unlock m s") auto
  then have "untouched rows st s1"
    using unlock_untouched[OF assms, of m] by (simp add: ensures_def)
  then show ?thesis
    using False u by (cases r) (auto simp: unlock_and_rethrow_def ensures_def)
qed

lemma run_hook_untouched:
  assumes "untouched rows st s" and "ledger_safe_hook h" and "\<forall>ev \<in> set evs. \<not> is_Running ev"
  shows "ensures (\<lambda>u. True) (untouched rows st) (run_hook h evs s)"
proof (cases h)
  case None
  then show ?thesis
    using assms(1) by (simp add: run_hook_def ensures_def)
next
  case (Some f)
  then have "migrations (snd (f (db s))) = migrations (db s)"
    using assms(2) by (simp add: ledger_safe_hook_def)
  then show ?thesis
    using Some assms(1,3)
    by (auto simp: run_hook_def user_code_def ensures_def untouched_def split: prod.splits)
qed

lemma integrityCheck_p_untouched:
  assumes "untouched rows st s" and "migrations (db st) = Some rows"
    and "fst (integrityCheck m fs force (db st)) = Inr result"
  shows "ensures (\<lambda>r. r = result) (untouched rows st) (integrityCheck_p m fs force s)"
proof -
  have "migrations (db s) = migrations (db st)"
    using assms(1,2) by (simp add: untouched_def)
  then have "integrityCheck m fs force (db s) = integrityCheck m fs force (db st)"
    by (rule integrityCheck_migrations_cong)
  then show ?thesis
    using assms(1,3)
    by (cases "integrityCheck m fs force (db st)")
       (auto simp: integrityCheck_p_def ensures_def untouched_def filter_map comp_def)
qed

lemma find_requested_untouched:
  assumes "untouched rows st s"
  shows "ensures (\<lambda>vs. vs = versionsToMigrate result) (untouched rows st) (find_requested options result s)"
  using assms by (auto simp: find_requested_def ensures_def untouched_def split: option.splits)

lemma select_tasks_member:
  assumes "Some t \<in> set (select_tasks only None ts)"
  shows "t \<in> set ts"
  using assms
  by (auto simp: select_tasks_def or_null_def split: option.splits if_splits)

lemma select_tasks_nonempty:
  assumes "ts \<noteq> []"
  shows "select_tasks only None ts \<noteq> []"
  using assms by (auto simp: select_tasks_def or_null_def split: option.splits)

lemma each_recorded:
  assumes "untouched rows st (fst s)"
    and "\<forall>t. Some t \<in> set tasks \<longrightarrow> list_ex (\<lambda>r. row_name r = task_name t \<and> row_version r = V) rows"
  shows "untouched rows st (fst (snd (each_p (executeTask m hks V) tasks s)))
     \<and> (fst (each_p (executeTask m hks V) tasks s) = Resolved () \<and> (tasks \<noteq> [] \<or> snd s \<noteq> [])
          \<longrightarrow> snd (snd (each_p (executeTask m hks V) tasks s)) \<noteq> [])"
  using assms
proof (induction tasks arbitrary: s)
  case Nil
  then show ?case by simp
next
  case (Cons x tasks)
  obtain s0 sk where s: "s = (s0, sk)"
    by (cases s) auto
  show ?case
  proof (cases x)
    case None
    then show ?thesis
      using Cons.prems(1) by (simp add: executeTask_def)
  next
    case (Some t)
    have rows: "migrations (db s0) = Some rows"
      using Cons.prems(1) s by (simp add: untouched_def)
    have rec: "list_ex (\<lambda>r. row_name r = task_name t \<and> row_version r = V) rows"
      using Cons.prems(2) Some by simp
    have step: "executeTask m hks V (Some t) (s0, sk)
        = (Resolved (), emit [Skipping (task_name t)] s0, sk @ [task_name t])"
      by (rule executeTask_recorded[OF rows rec])
    have u: "untouched rows st (fst (emit [Skipping (task_name t)] s0, sk @ [task_name t]))"
      using Cons.prems(1) s by (simp add: untouched_def)
    show ?thesis
      using Cons.IH[OF u] Cons.prems(2) Some s step by simp
  qed
qed

lemma migrateTo_untouched:
  assumes "untouched rows st s" and "read_tasks_for fs (mt_version opts) = Inr ts"
    and "\<forall>t \<in> set ts. list_ex (\<lambda>r. row_name r = task_name t \<and> row_version r = mt_version opts) rows"
    and "mt_version opts = ''init'' \<longrightarrow> ts \<noteq> []" and "mt_skip opts = None"
  shows "untouched rows st (snd (migrateTo m fs opts s))"
proof -
  define tasks where "tasks = select_tasks (mt_only opts) (mt_skip opts) ts"
  define s0 where "s0 = (emit [MigrateTo (mt_version opts) (length tasks)] s, [] :: string list)"
  define run where "run = each_p (executeTask m (mt_hooks opts) (mt_version opts)) tasks s0"
  have u0: "untouched rows st (fst s0)"
    using assms(1) by (simp add: s0_def untouched_def)
  have rec: "\<forall>t. Some t \<in> set tasks \<longrightarrow>
      list_ex (\<lambda>r. row_name r = task_name t \<and> row_version r = mt_version opts) rows"
    using assms(3,5) select_tasks_member by (auto simp: tasks_def)
  have fin: "untouched rows st (fst (snd run))"
    and sk: "fst run = Resolved () \<and> (tasks \<noteq> [] \<or> snd s0 \<noteq> []) \<longrightarrow> snd (snd run) \<noteq> []"
    using each_recorded[OF u0 rec, of m "mt_hooks opts"] by (simp_all add: run_def)
  have ne: "mt_version opts = ''init'' \<longrightarrow> tasks \<noteq> []"
    using assms(4,5) select_tasks_nonempty by (simp add: tasks_def)
  obtain r st1 sk1 where r: "run = (r, st1, sk1)"
    by (cases run) auto
  have mt: "migrateTo m fs opts s =
      (case run of (Rejected err, st', skippedTasks) \<Rightarrow> (Rejected err, st')
       | (Resolved u, st', skippedTasks) \<Rightarrow>
           (if mt_version opts \<noteq> ''init'' \<or> (mt_version opts = ''init'' \<and> skippedTasks \<noteq> [])
            then (Resolved (), st')
            else (case readFolders fs of
                    Inl err \<Rightarrow> if err_code err = ''READ_FOLDERS'' then (Resolved (), st') else (Rejected err, st')
                  | Inr versionsToMigrateTo \<Rightarrow> backfill m fs versionsToMigrateTo st')))"
    using assms(2) by (simp add: migrateTo_def Let_def tasks_def s0_def run_def)
  show ?thesis
  proof (cases r)
    case (Rejected err)
    then show ?thesis
      using fin r by (simp add: mt)
  next
    case (Resolved u)
    then have "mt_version opts = ''init'' \<longrightarrow> sk1 \<noteq> []"
      using sk ne r by simp
    then show ?thesis
      using fin r Resolved by (auto simp: mt)
  qed
qed

lemma createTransaction_untouched:
  assumes "migrations (db st) = Some rows" and "untouched rows st (snd (callback st))"
  shows "untouched rows st (snd (createTransaction callback st))"
  using assms
  by (cases "callback st"; cases "fst (callback st)") (auto simp: createTransaction_def untouched_def)

lemma finally_p_untouched:
  assumes "untouched rows st (snd p)"
  shows "untouched rows st (snd (finally_p hks p))"
  using assms
  by (auto simp: finally_p_def untouched_def split: option.splits settled.splits)

lemma migrate_tasks_untouched:
  assumes rows: "migrations (db st) = Some rows"
    and ic: "fst (integrityCheck m fs (mo_force options) (db st)) = Inr result"
    and rec: "\<forall>V \<in> set (versionsToMigrate result). \<exists>ts. read_tasks_for fs V = Inr ts
          \<and> (\<forall>t \<in> set ts. list_ex (\<lambda>r. row_name r = task_name t \<and> row_version r = V) rows)
          \<and> (V = ''init'' \<longrightarrow> ts \<noteq> [])"
    and hb: "ledger_safe_hook (before hks)" and ha: "ledger_safe_hook (after hks)"
  shows "untouched rows st (snd (migrate_tasks m fs options hks st))"
proof -
  define Q where "Q = untouched rows st"
  define A where "A = (\<lambda>vs. vs = versionsToMigrate result)"
  define p1 where "p1 = lock st"
  define p2 where "p2 = then_p p1 (\<lambda>u. integrityCheck_p m fs (mo_force options))"
  define p3 where "p3 = then_p p2 (find_requested options)"
  define p4 where "p4 = then_p p3 (\<lambda>vs st. if vs = [] then (Resolved vs, st)
                    else then_p (run_hook (before hks) [BeforeHook] st) (\<lambda>u. Pair (Resolved vs)))"
  define p5 where "p5 = then_p p4 (\<lambda>vs st. if vs = [] then (Resolved vs, st)
                    else then_p
                      (each_p (\<lambda>versionToMigrate. migrateTo m fs
                                 \<lparr>mt_version = versionToMigrate, mt_only = onlyFile options,
                                  mt_skip = None, mt_hooks = hks\<rparr>) vs st)
                      (\<lambda>u. Pair (Resolved vs)))"
  define p6 where "p6 = then_p p5 (\<lambda>vs st. if vs = [] then (Resolved (), st)
                    else run_hook (after hks) [AfterHook] st)"
  define p7 where "p7 = then_p p6 (\<lambda>u. unlock m)"
  have start: "Q st"
    using rows by (simp add: Q_def untouched_def)
  have e1: "ensures (\<lambda>u. True) Q p1"
    unfolding p1_def Q_def by (rule lock_untouched) (use start in \<open>simp add: Q_def\<close>)
  have e2: "ensures (\<lambda>r. r = result) Q p2"
    unfolding p2_def
    by (rule then_p_ensures[OF e1]) (simp add: Q_def integrityCheck_p_untouched[OF _ rows ic])
  have e3: "ensures A Q p3"
    unfolding p3_def A_def
    by (rule then_p_ensures[OF e2]) (simp add: Q_def find_requested_untouched)
  have e4: "ensures A Q p4"
    unfolding p4_def
  proof (rule then_p_ensures[OF e3])
    fix vs s assume "A vs" and "Q s"
    then have "ensures (\<lambda>u. True) Q (run_hook (before hks) [BeforeHook] s)"
      using run_hook_untouched[OF _ hb, of rows st s "[BeforeHook]"] by (simp add: Q_def)
    then have "ensures A Q (then_p (run_hook (before hks) [BeforeHook] s) (\<lambda>u. Pair (Resolved vs)))"
      by (rule then_p_ensures) (use \<open>A vs\<close> in \<open>simp add: ensures_def\<close>)
    then show "ensures A Q (if vs = [] then (Resolved vs, s)
        else then_p (run_hook (before hks) [BeforeHook] s) (\<lambda>u. Pair (Resolved vs)))"
      using \<open>A vs\<close> \<open>Q s\<close> by (auto simp: ensures_def)
  qed
  have e5: "ensures A Q p5"
    unfolding p5_def
  proof (rule then_p_ensures[OF e4])
    fix vs s assume "A vs" and "Q s"
    define each where "each = each_p (\<lambda>versionToMigrate. migrateTo m fs
                                 \<lparr>mt_version = versionToMigrate, mt_only = onlyFile options,
                                  mt_skip = None, mt_hooks = hks\<rparr>) vs s"
    have step: "Q (snd (migrateTo m fs \<lparr>mt_version = V, mt_only = onlyFile options,
                                  mt_skip = None, mt_hooks = hks\<rparr> s'))"
      if Vin: "V \<in> set vs" and Qs: "Q s'" for V s'
    proof -
      obtain ts where "read_tasks_for fs V = Inr ts"
        and "\<forall>t \<in> set ts. list_ex (\<lambda>r. row_name r = task_name t \<and> row_version r = V) rows"
        and "V = ''init'' \<longrightarrow> ts \<noteq> []"
        using rec Vin \<open>A vs\<close> by (auto simp: A_def)
      then show ?thesis
        using migrateTo_untouched[of rows st s' fs "\<lparr>mt_version = V, mt_only = onlyFile options,
                                  mt_skip = None, mt_hooks = hks\<rparr>" ts m] Qs
        by (simp add: Q_def)
    qed
    have step': "Q s''" if "V \<in> set vs" and "Q sa"
      and "migrateTo m fs \<lparr>mt_version = V, mt_only = onlyFile options,
                                  mt_skip = None, mt_hooks = hks\<rparr> sa = (r, s'')" for V sa r s''
      using step[OF that(1,2)] that(3) by simp
    have "Q (snd each)"
    proof (cases each)
      case (Pair r s'')
      then have run: "each_p (\<lambda>versionToMigrate. migrateTo m fs
                                 \<lparr>mt_version = versionToMigrate, mt_only = onlyFile options,
                                  mt_skip = None, mt_hooks = hks\<rparr>) vs s = (r, s'')"
        by (simp add: each_def)
      have "Q s''"
        by (rule each_p_invariant[where I = Q and xs = vs and s = s and r = r
              and f = "\<lambda>versionToMigrate. migrateTo m fs
                                 \<lparr>mt_version = versionToMigrate, mt_only = onlyFile options,
                                  mt_skip = None, mt_hooks = hks\<rparr>"])
           (use step' \<open>Q s\<close> run in blast)+
      then show ?thesis
        using Pair by simp
    qed
    then have "ensures (\<lambda>u. True) Q each"
      by (simp add: ensures_def)
    then have "ensures A Q (then_p each (\<lambda>u. Pair (Resolved vs)))"
      by (rule then_p_ensures) (use \<open>A vs\<close> in \<open>simp add: ensures_def\<close>)
    then show "ensures A Q (if vs = [] then (Resolved vs, s)
        else then_p (each_p (\<lambda>versionToMigrate. migrateTo m fs
                                 \<lparr>mt_version = versionToMigrate, mt_only = onlyFile options,
                                  mt_skip = None, mt_hooks = hks\<rparr>) vs s) (\<lambda>u. Pair (Resolved vs)))"
      using \<open>A vs\<close> \<open>Q s\<close> by (auto simp: ensures_def each_def)
  qed
  have e6: "ensures (\<lambda>u. True) Q p6"
    unfolding p6_def
  proof (rule then_p_ensures[OF e5])
    fix vs s assume "A vs" and "Q s"
    then show "ensures (\<lambda>u. True) Q (if vs = [] then (Resolved (), s)
        else run_hook (after hks) [AfterHook] s)"
      using run_hook_untouched[OF _ ha, of rows st s "[AfterHook]"]
      by (simp add: Q_def ensures_def)
  qed
  have e7: "ensures (\<lambda>u. True) Q p7"
    unfolding p7_def
    by (rule then_p_ensures[OF e6]) (simp add: Q_def unlock_untouched)
  have "ensures (\<lambda>u. True) Q (catch_p p7 (unlock_and_rethrow m))"
    by (rule catch_p_ensures[OF e7]) (simp add: Q_def unlock_and_rethrow_untouched)
  moreover have "migrate_tasks m fs options hks st = catch_p p7 (unlock_and_rethrow m)"
    by (simp add: migrate_tasks_def p7_def p6_def p5_def p4_def p3_def p2_def p1_def)
  ultimately show ?thesis
    by (simp add: ensures_def Q_def)
qed

text \<open>
  Claim C3, as amended. In a state where, for every version the integrity check leaves
  with differing counts, each task file on disk has its ledger row, and the init
  folder is not empty when init is among them, \<^verbatim>\<open>migrate\<close> (without the \<^verbatim>\<open>init\<close> option,
  its \<^verbatim>\<open>before\<close> and \<^verbatim>\<open>after\<close> hooks leaving the ledger alone) changes nothing: the ledger
  is the same and no task body is called, every task being skipped by the pre-check.
\<close>

theorem migrate_again_is_noop:
  assumes "migrations (db st) = Some rows"
    and "fst (integrityCheck m fs (mo_force options) (db st)) = Inr result"
    and "\<forall>V \<in> set (versionsToMigrate result). \<exists>ts. read_tasks_for fs V = Inr ts
          \<and> (\<forall>t \<in> set ts. list_ex (\<lambda>r. row_name r = task_name t \<and> row_version r = V) rows)
          \<and> (V = ''init'' \<longrightarrow> ts \<noteq> [])"
    and "ledger_safe_hook (before (migrate_hooks m))" and "ledger_safe_hook (after (migrate_hooks m))"
    and "\<not> mo_init options"
  shows "migrations (db (snd (migrate m fs options st))) = Some rows
     \<and> filter is_Running (trace (snd (migrate m fs options st))) = filter is_Running (trace st)"
proof -
  have "untouched rows st (snd (migrate_tasks m fs options (migrate_hooks m) st))"
    by (rule migrate_tasks_untouched[OF assms(1-5)])
  then have "untouched rows st (snd (createTransaction (migrate_tasks m fs options (migrate_hooks m)) st))"
    by (rule createTransaction_untouched[OF assms(1)])
  then have "untouched rows st (snd (migrate_run m fs options st))"
    unfolding migrate_run_def by (rule finally_p_untouched)
  then show ?thesis
    using assms(6) by (simp add: migrate_def untouched_def)
qed

lemma scan_folders_empty_init:
  "scan_folders migrator_1_0 fs_empty_init False initialised_db
     = \<lparr>futureVersions = [''1.1''],
        operations = [(''init'', where_version initialised_db ''init''),
                      (''1.1'', where_version initialised_db ''1.1'')],
        warnings = []\<rparr>"
  by (simp add: scan_folders_def folders_of_def readFolders_def
      fs_empty_init_def scan_folder_def migrator_1_0_def match_1_1 gt_1_0_1_1)

lemma toReturn_counts_empty_init:
  "toReturn_counts migrator_1_0 fs_empty_init False initialised_db
     = Inr [(''init'', \<lparr>expected = 0, actual = 1\<rparr>), (''1.1'', \<lparr>expected = 1, actual = 0\<rparr>)]"
  unfolding toReturn_counts_def scan_folders_empty_init
  by (simp add: where_version_def select_migrations_def initialised_db_def
      ledger_row_def own_keys_order_def expected_of_def readTasks_init_def readTasks_version_def
      init_baseline_def fs_empty_init_def not_index_1_1 gt_1_0_1_1)

lemma integrityCheck_empty_init:
  "integrityCheck migrator_1_0 fs_empty_init False initialised_db
     = (Inr [(''init'', \<lparr>expected = 0, actual = 1\<rparr>)], skip_warnings ''1.1'')"
  by (simp add: integrityCheck_def toReturn_counts_empty_init scan_folders_empty_init)

lemma migrateTo_empty_init:
  "migrateTo migrator_1_0 fs_empty_init
      \<lparr>mt_version = ''init'', mt_only = None, mt_skip = None, mt_hooks = no_hooks\<rparr>
      \<lparr>db = initialised_db, trace = tr\<rparr>
     = (Resolved (),
        \<lparr>db = initialised_db\<lparr>migrations :=
                Some [ledger_row ''1-a'' ''init'' ''1.0'', ledger_row ''1-x'' ''1.1'' ''1.0'']\<rparr>,
         trace = tr @ [MigrateTo ''init'' 0]\<rparr>)"
  by (simp add: migrateTo_def read_tasks_for_def readTasks_init_def fs_empty_init_def select_tasks_def
      or_null_def readFolders_def backfill_def backfill_version_def readTasks_version_def
      backfill_file_def query_def name_exists_def select_migrations_def statement_def
      insert_migration_def initialised_db_def ledger_row_def insert_task_def migrator_1_0_def emit_def)

lemma migrate_tasks_empty_init:
  "migrate_tasks migrator_1_0 fs_empty_init plain_migrate no_hooks st_start
     = (Resolved (),
        \<lparr>db = initialised_db\<lparr>migrations :=
                Some [ledger_row ''1-a'' ''init'' ''1.0'', ledger_row ''1-x'' ''1.1'' ''1.0''],
              migrations_lock := Some [km01 None (Some 7)]\<rparr>,
         trace = [Lock, LockData [km01 None None]] @ map Warn (skip_warnings ''1.1'')
                 @ [MigrateTo ''init'' 0, Unlock]\<rparr>)"
proof -
  have only: "onlyFile plain_migrate = None"
    by (simp add: onlyFile_def plain_migrate_def or_null_def)
  have force: "mo_force plain_migrate = False" and version: "mo_version plain_migrate = None"
    by (simp_all add: plain_migrate_def)
  have unlock: "unlock migrator_1_0
        \<lparr>db = initialised_db\<lparr>migrations :=
                Some [ledger_row ''1-a'' ''init'' ''1.0'', ledger_row ''1-x'' ''1.1'' ''1.0'']\<rparr>,
         trace = tr\<rparr>
      = (Resolved (),
         \<lparr>db = initialised_db\<lparr>migrations :=
                Some [ledger_row ''1-a'' ''init'' ''1.0'', ledger_row ''1-x'' ''1.1'' ''1.0''],
              migrations_lock := Some [km01 None (Some 7)]\<rparr>,
          trace = tr @ [Unlock]\<rparr>)" for tr
    by (simp add: unlock_def statement_def update_released_at_def initialised_db_def km01_def emit_def
        migrator_1_0_def)
  have step2: "integrityCheck_p migrator_1_0 fs_empty_init False \<lparr>db = initialised_db, trace = tr\<rparr>
      = (Resolved [(''init'', \<lparr>expected = 0, actual = 1\<rparr>)],
         \<lparr>db = initialised_db, trace = tr @ map Warn (skip_warnings ''1.1'')\<rparr>)" for tr
    by (simp add: integrityCheck_p_def integrityCheck_empty_init emit_def)
  have step3: "find_requested plain_migrate result s = (Resolved (versionsToMigrate result), s)" for result s
    by (simp add: find_requested_def version)
  have nh: "before no_hooks = None" "after no_hooks = None"
    by (simp_all add: no_hooks_def)
  show ?thesis
    unfolding migrate_tasks_def st_start_def lock_initialised force only
    by (simp add: step2 step3 versionsToMigrate_def own_keys_order_def run_hook_def nh
        migrateTo_empty_init unlock)
qed

text \<open>
  Claim C3 as stated fails where init has differing counts and no task file: the init
  back-fill runs inside \<^verbatim>\<open>migrate\<close>. Here every task of every due version is recorded
  (init has none on disk, version 1.1 is not due), and \<^verbatim>\<open>migrate\<close> adds a ledger row for
  the task of version 1.1.
\<close>

theorem backfill_during_migrate:
  "init_dir fs_empty_init = Some []
   \<and> fst (integrityCheck migrator_1_0 fs_empty_init False (db st_start))
       = Inr [(''init'', \<lparr>expected = 0, actual = 1\<rparr>)]
   \<and> migrations (db st_start) = Some [ledger_row ''1-a'' ''init'' ''1.0'']
   \<and> migrations (db (snd (migrate migrator_1_0 fs_empty_init plain_migrate st_start)))
       = Some [ledger_row ''1-a'' ''init'' ''1.0'', ledger_row ''1-x'' ''1.1'' ''1.0'']"
proof -
  have hk: "migrate_hooks migrator_1_0 = no_hooks" and sh: "shutdown no_hooks = None"
    by (simp_all add: migrator_1_0_def no_hooks_def)
  have no_init: "\<not> mo_init plain_migrate"
    by (simp add: plain_migrate_def)
  have start: "db st_start = initialised_db"
    by (simp add: st_start_def)
  have run: "migrations (db (snd (migrate migrator_1_0 fs_empty_init plain_migrate st_start)))
       = Some [ledger_row ''1-a'' ''init'' ''1.0'', ledger_row ''1-x'' ''1.1'' ''1.0'']"
    by (simp add: migrate_def no_init migrate_run_def createTransaction_def hk
        migrate_tasks_empty_init finally_p_def sh)
  show ?thesis
    using run by (simp add: start integrityCheck_empty_init) (simp add: fs_empty_init_def initialised_db_def)
qed

theorem migrate_again_is_noop_witness:
  "migrations surplus_version_db
     = Some [ledger_row ''1-a'' ''init'' ''1.0'', ledger_row ''1-x'' ''1.1'' ''1.1'',
             ledger_row ''2-gone'' ''1.1'' ''1.1'']
   \<and> versionsToMigrate [(''init'', \<lparr>expected = 1, actual = 1\<rparr>), (''1.1'', \<lparr>expected = 1, actual = 2\<rparr>)]
     = [''1.1'']
   \<and> read_tasks_for fs_1_1 ''1.1'' = Inr [insert_task ''1-x'']
   \<and> migrations (db (snd (migrate migrator_1_1 fs_1_1 plain_migrate \<lparr>db = surplus_version_db, trace = []\<rparr>)))
     = Some [ledger_row ''1-a'' ''init'' ''1.0'', ledger_row ''1-x'' ''1.1'' ''1.1'',
             ledger_row ''2-gone'' ''1.1'' ''1.1'']
   \<and> filter is_Running (trace (snd (migrate migrator_1_1 fs_1_1 plain_migrate
         \<lparr>db = surplus_version_db, trace = []\<rparr>))) = []"
proof -
  define rows where "rows = [ledger_row ''1-a'' ''init'' ''1.0'', ledger_row ''1-x'' ''1.1'' ''1.1'',
             ledger_row ''2-gone'' ''1.1'' ''1.1'']"
  define result where "result = [(''init'', \<lparr>expected = 1, actual = 1\<rparr>), (''1.1'', \<lparr>expected = 1 :: nat, actual = 2 :: nat\<rparr>)]"
  have h1: "migrations (db \<lparr>db = surplus_version_db, trace = []\<rparr>) = Some rows"
    by (simp add: surplus_version_db_def rows_def)
  have h2: "fst (integrityCheck migrator_1_1 fs_1_1 (mo_force plain_migrate)
      (db \<lparr>db = surplus_version_db, trace = []\<rparr>)) = Inr result"
    by (simp add: plain_migrate_def integrityCheck_surplus_version result_def)
  have vs: "versionsToMigrate result = [''1.1'']"
    by (simp add: result_def versionsToMigrate_def own_keys_order_def not_index_1_1)
  have ts: "read_tasks_for fs_1_1 ''1.1'' = Inr [insert_task ''1-x'']"
    by (simp add: read_tasks_for_def readTasks_version_def fs_1_1_def)
  have h3: "\<forall>V \<in> set (versionsToMigrate result). \<exists>ts. read_tasks_for fs_1_1 V = Inr ts
          \<and> (\<forall>t \<in> set ts. list_ex (\<lambda>r. row_name r = task_name t \<and> row_version r = V) rows)
          \<and> (V = ''init'' \<longrightarrow> ts \<noteq> [])"
    by (simp add: vs ts rows_def ledger_row_def insert_task_def)
  have h4: "ledger_safe_hook (before (migrate_hooks migrator_1_1))"
    and h5: "ledger_safe_hook (after (migrate_hooks migrator_1_1))"
    by (simp_all add: ledger_safe_hook_def migrator_1_1_def no_hooks_def)
  have h6: "\<not> mo_init plain_migrate"
    by (simp add: plain_migrate_def)
  show ?thesis
    using migrate_again_is_noop[OF h1 h2 h3 h4 h5 h6] vs ts
    by (simp add: rows_def result_def surplus_version_db_def)
qed

subsection \<open>migrate with only\<close>

text \<open>
  A run that succeeds is followed step by step: each step resolves and hands on a state
  whose ledger and list of called task bodies are known.
\<close>

lemma then_p_resolves:
  assumes "resolves A Q p" and "\<And>a s. A a \<Longrightarrow> Q s \<Longrightarrow> resolves B Q' (f a s)"
  shows "resolves B Q' (then_p p f)"
proof (cases p)
  case (Pair r s)
  then show ?thesis
    using assms by (cases r) (auto simp: resolves_def)
qed

lemma catch_p_resolves:
  assumes "resolves A Q p"
  shows "resolves A Q (catch_p p h)"
proof (cases p)
  case (Pair r s)
  then show ?thesis
    using assms by (cases r) (auto simp: resolves_def)
qed

lemma lock_resolves:
  assumes "books rows runs st s"
  shows "resolves (\<lambda>u. True) (books rows runs st) (lock s)"
  using assms
  by (auto simp: lock_def query_def select_lock_def resolves_def books_def split: option.splits)

lemma unlock_resolves:
  assumes "books rows runs st s"
  shows "resolves (\<lambda>u. True) (books rows runs st) (unlock m s)"
  using assms
  by (auto simp: unlock_def statement_def update_released_at_def resolves_def books_def
      split: option.splits)

lemma run_hook_resolves:
  assumes "books rows runs st s" and "quiet_hook h" and "\<forall>ev \<in> set evs. \<not> is_Running ev"
  shows "resolves (\<lambda>u. True) (books rows runs st) (run_hook h evs s)"
proof (cases h)
  case None
  then show ?thesis
    using assms(1) by (simp add: run_hook_def resolves_def)
next
  case (Some f)
  then have "fst (f (db s)) = Resolved ()" "migrations (snd (f (db s))) = migrations (db s)"
    "migrations_lock (snd (f (db s))) = migrations_lock (db s)"
    using assms(2) by (simp_all add: quiet_hook_def)
  then show ?thesis
    using Some assms(1,3)
    by (auto simp: run_hook_def user_code_def resolves_def books_def split: prod.splits)
qed

lemma integrityCheck_p_resolves:
  assumes "books rows runs st s" and "migrations (db st) = Some rows"
    and "fst (integrityCheck m fs force (db st)) = Inr result"
  shows "resolves (\<lambda>r. r = result) (books rows runs st) (integrityCheck_p m fs force s)"
proof -
  have "migrations (db s) = migrations (db st)"
    using assms(1,2) by (simp add: books_def)
  then have "integrityCheck m fs force (db s) = integrityCheck m fs force (db st)"
    by (rule integrityCheck_migrations_cong)
  then show ?thesis
    using assms(1,3)
    by (cases "integrityCheck m fs force (db st)")
       (auto simp: integrityCheck_p_def resolves_def books_def filter_map comp_def)
qed

lemma find_requested_resolves:
  assumes "books rows runs st s"
  shows "resolves (\<lambda>vs. vs = versionsToMigrate result) (books rows runs st) (find_requested options result s)"
  using assms by (auto simp: find_requested_def resolves_def books_def split: option.splits)

lemma task_chain_resolves:
  assumes "books rows [] st s"
    and "\<not> list_ex (\<lambda>r. row_name r = task_name t \<and> row_version r = V) rows"
    and "quiet_task t" and "quiet_hook (beforeEach hks)" and "quiet_hook (afterEach hks)"
  shows "resolves (\<lambda>u. True)
           (books (rows @ [\<lparr>row_name = task_name t, row_version = V, row_currentVersion = currentVersion m\<rparr>])
              [Running (task_name t)] st)
           (task_chain m hks V t s)"
proof -
  define row where "row = \<lparr>row_name = task_name t, row_version = V, row_currentVersion = currentVersion m\<rparr>"
  have b1: "resolves (\<lambda>u. True) (books rows [] st) (beforeEachTask (task_name t) V s)"
    using assms(1,2) by (auto simp: beforeEachTask_def query_def select_migrations_def resolves_def books_def)
  have b2: "resolves (\<lambda>u. True) (books rows [] st)
      (then_p (beforeEachTask (task_name t) V s) (\<lambda>u. run_hook (beforeEach hks) []))"
    by (rule then_p_resolves[OF b1]) (simp add: run_hook_resolves assms(4))
  have ex: "resolves (\<lambda>u. True) (books rows [Running (task_name t)] st)
      (user_code (execute t) (emit [Running (task_name t)] s'))" if "books rows [] st s'" for s'
  proof -
    obtain resp where "fst (execute t (db s')) = Resolved resp"
      and "migrations (snd (execute t (db s'))) = migrations (db s')"
      and "migrations_lock (snd (execute t (db s'))) = migrations_lock (db s')"
      using assms(3) by (auto simp: quiet_task_def)
    then show ?thesis
      using that by (auto simp: user_code_def resolves_def books_def split: prod.splits)
  qed
  have b3: "resolves (\<lambda>u. True) (books rows [Running (task_name t)] st)
      (then_p (then_p (beforeEachTask (task_name t) V s) (\<lambda>u. run_hook (beforeEach hks) []))
        (\<lambda>u st'. user_code (execute t) (emit [Running (task_name t)] st')))"
    by (rule then_p_resolves[OF b2]) (simp add: ex)
  have ins: "resolves (\<lambda>u. True) (books (rows @ [row]) [Running (task_name t)] st)
      (afterEachTask m (task_name t) V s')" if "books rows [Running (task_name t)] st s'" for s'
    using that
    by (auto simp: afterEachTask_def statement_def insert_migration_def resolves_def books_def row_def)
  have b4: "resolves (\<lambda>u. True) (books (rows @ [row]) [Running (task_name t)] st)
      (then_p (then_p (then_p (beforeEachTask (task_name t) V s) (\<lambda>u. run_hook (beforeEach hks) []))
        (\<lambda>u st'. user_code (execute t) (emit [Running (task_name t)] st')))
        (\<lambda>taskResponse. afterEachTask m (task_name t) V))"
    by (rule then_p_resolves[OF b3]) (simp add: ins)
  show ?thesis
    unfolding task_chain_def row_def[symmetric]
    by (rule then_p_resolves[OF b4]) (simp add: run_hook_resolves assms(5))
qed

lemma books_emit:
  assumes "books rows runs st s" and "\<forall>ev \<in> set evs. \<not> is_Running ev"
  shows "books rows runs st (emit evs s)"
  using assms by (simp add: books_def emit_def)

lemma migrateTo_resolves:
  assumes Q: "books rows [] st s"
    and V: "mt_version opts = V" "V \<noteq> ''init''"
    and only: "mt_only opts = Some n" "0 < n"
    and ts: "version_dir fs V = Some ts" "n \<le> length ts"
    and fresh: "\<not> list_ex (\<lambda>r. row_name r = task_name (ts ! (n - 1)) \<and> row_version r = V) rows"
    and quiet: "quiet_task (ts ! (n - 1))" "quiet_hook (beforeEach (mt_hooks opts))"
      "quiet_hook (afterEach (mt_hooks opts))"
  shows "resolves (\<lambda>u. True)
           (books (rows @ [\<lparr>row_name = task_name (ts ! (n - 1)), row_version = V,
                            row_currentVersion = currentVersion m\<rparr>])
              [Running (task_name (ts ! (n - 1)))] st)
           (migrateTo m fs opts s)"
proof -
  define t where "t = ts ! (n - 1)"
  have sel: "select_tasks (mt_only opts) (mt_skip opts) ts = [Some t]"
    using only ts(2) by (simp add: select_tasks_def or_null_def t_def)
  have Q': "books rows [] st (emit [MigrateTo V (Suc 0)] s)"
    by (rule books_emit[OF Q]) simp
  have tc: "resolves (\<lambda>u. True)
      (books (rows @ [\<lparr>row_name = task_name t, row_version = V, row_currentVersion = currentVersion m\<rparr>])
         [Running (task_name t)] st)
      (task_chain m (mt_hooks opts) V t (emit [MigrateTo V (Suc 0)] s))"
    using task_chain_resolves[OF Q' _ _ quiet(2,3)] fresh quiet(1) by (simp add: t_def)
  then obtain s' where s': "task_chain m (mt_hooks opts) V t (emit [MigrateTo V (Suc 0)] s) = (Resolved (), s')"
    and Qs: "books (rows @ [\<lparr>row_name = task_name t, row_version = V, row_currentVersion = currentVersion m\<rparr>])
         [Running (task_name t)] st s'"
    by (cases "task_chain m (mt_hooks opts) V t (emit [MigrateTo V (Suc 0)] s)") (auto simp: resolves_def)
  have "migrateTo m fs opts s = (Resolved (), s')"
    using V ts(1) by (simp add: migrateTo_def read_tasks_for_def readTasks_version_def sel executeTask_def s')
  then show ?thesis
    using Qs by (simp add: resolves_def t_def)
qed

lemma migrate_tasks_resolves:
  assumes version: "mo_version options = Some V" "V \<noteq> []" "V \<noteq> ''init''"
    and only: "mo_only options = Some n" "0 < n"
    and tables: "migrations (db st) = Some rows" "migrations_lock (db st) \<noteq> None"
    and ic: "fst (integrityCheck m fs (mo_force options) (db st)) = Inr result"
    and due: "versionsToMigrate result = [V]"
    and ts: "version_dir fs V = Some ts" "n \<le> length ts"
    and fresh: "\<not> list_ex (\<lambda>r. row_name r = task_name (ts ! (n - 1)) \<and> row_version r = V) rows"
    and quiet: "quiet_task (ts ! (n - 1))" "quiet_hook (before hks)" "quiet_hook (beforeEach hks)"
      "quiet_hook (afterEach hks)" "quiet_hook (after hks)"
  shows "resolves (\<lambda>u. True)
           (books (rows @ [\<lparr>row_name = task_name (ts ! (n - 1)), row_version = V,
                            row_currentVersion = currentVersion m\<rparr>])
              [Running (task_name (ts ! (n - 1)))] st)
           (migrate_tasks m fs options hks st)"
proof -
  let ?Q0 = "books rows [] st"
  let ?Q1 = "books (rows @ [\<lparr>row_name = task_name (ts ! (n - 1)), row_version = V,
                            row_currentVersion = currentVersion m\<rparr>])
              [Running (task_name (ts ! (n - 1)))] st"
  have start: "?Q0 st"
    using tables by (simp add: books_def)
  have ofile: "onlyFile options = Some n"
    using version only by (simp add: onlyFile_def truthy_def)
  have c1: "resolves (\<lambda>u. True) ?Q0 (lock st)"
    by (rule lock_resolves[OF start])
  have c2: "resolves (\<lambda>r. r = result) ?Q0 (then_p (lock st) (\<lambda>u. integrityCheck_p m fs (mo_force options)))"
    by (rule then_p_resolves[OF c1]) (simp add: integrityCheck_p_resolves[OF _ tables(1) ic])
  have c3: "resolves (\<lambda>vs. vs = [V]) ?Q0
      (then_p (then_p (lock st) (\<lambda>u. integrityCheck_p m fs (mo_force options))) (find_requested options))"
    by (rule then_p_resolves[OF c2]) (use find_requested_resolves[of rows "[]" st _ result options] due in simp)
  have c4: "resolves (\<lambda>vs. vs = [V]) ?Q0
      (then_p (then_p (then_p (lock st) (\<lambda>u. integrityCheck_p m fs (mo_force options))) (find_requested options))
         (\<lambda>vs st. if vs = [] then (Resolved vs, st)
                    else then_p (run_hook (before hks) [BeforeHook] st) (\<lambda>u. Pair (Resolved vs))))"
  proof (rule then_p_resolves[OF c3])
    fix a s assume a: "a = [V]" and s: "?Q0 s"
    have "resolves (\<lambda>u. True) ?Q0 (run_hook (before hks) [BeforeHook] s)"
      by (rule run_hook_resolves[OF s quiet(2)]) simp
    then have "resolves (\<lambda>vs. vs = [V]) ?Q0 (then_p (run_hook (before hks) [BeforeHook] s) (\<lambda>u. Pair (Resolved [V])))"
      by (rule then_p_resolves) (simp add: resolves_def)
    then show "resolves (\<lambda>vs. vs = [V]) ?Q0
        (if a = [] then (Resolved a, s)
         else then_p (run_hook (before hks) [BeforeHook] s) (\<lambda>u. Pair (Resolved a)))"
      by (simp add: a)
  qed
  have c5: "resolves (\<lambda>vs. vs = [V]) ?Q1
      (then_p (then_p (then_p (then_p (lock st) (\<lambda>u. integrityCheck_p m fs (mo_force options)))
         (find_requested options))
         (\<lambda>vs st. if vs = [] then (Resolved vs, st)
                    else then_p (run_hook (before hks) [BeforeHook] st) (\<lambda>u. Pair (Resolved vs))))
         (\<lambda>vs st. if vs = [] then (Resolved vs, st)
                    else then_p
                      (each_p (\<lambda>versionToMigrate. migrateTo m fs
                                 \<lparr>mt_version = versionToMigrate, mt_only = onlyFile options,
                                  mt_skip = None, mt_hooks = hks\<rparr>) vs st)
                      (\<lambda>u. Pair (Resolved vs))))"
  proof (rule then_p_resolves[OF c4])
    fix a s assume a: "a = [V]" and s: "?Q0 s"
    have mt: "resolves (\<lambda>u. True) ?Q1
        (migrateTo m fs \<lparr>mt_version = V, mt_only = onlyFile options, mt_skip = None, mt_hooks = hks\<rparr> s)"
      by (rule migrateTo_resolves[OF s _ version(3) _ only(2) ts fresh quiet(1)])
         (simp_all add: ofile quiet)
    then have "resolves (\<lambda>u. True) ?Q1
        (each_p (\<lambda>versionToMigrate. migrateTo m fs
                   \<lparr>mt_version = versionToMigrate, mt_only = onlyFile options,
                    mt_skip = None, mt_hooks = hks\<rparr>) [V] s)"
      by (cases "migrateTo m fs \<lparr>mt_version = V, mt_only = onlyFile options, mt_skip = None, mt_hooks = hks\<rparr> s")
         (auto simp: resolves_def)
    then have "resolves (\<lambda>vs. vs = [V]) ?Q1
        (then_p (each_p (\<lambda>versionToMigrate. migrateTo m fs
                   \<lparr>mt_version = versionToMigrate, mt_only = onlyFile options,
                    mt_skip = None, mt_hooks = hks\<rparr>) [V] s) (\<lambda>u. Pair (Resolved [V])))"
      by (rule then_p_resolves) (simp add: resolves_def)
    then show "resolves (\<lambda>vs. vs = [V]) ?Q1
        (if a = [] then (Resolved a, s)
         else then_p
                (each_p (\<lambda>versionToMigrate. migrateTo m fs
                           \<lparr>mt_version = versionToMigrate, mt_only = onlyFile options,
                            mt_skip = None, mt_hooks = hks\<rparr>) a s)
                (\<lambda>u. Pair (Resolved a)))"
      by (simp add: a)
  qed
  have c6: "resolves (\<lambda>u. True) ?Q1
      (then_p (then_p (then_p (then_p (then_p (lock st) (\<lambda>u. integrityCheck_p m fs (mo_force options)))
         (find_requested options))
         (\<lambda>vs st. if vs = [] then (Resolved vs, st)
                    else then_p (run_hook (before hks) [BeforeHook] st) (\<lambda>u. Pair (Resolved vs))))
         (\<lambda>vs st. if vs = [] then (Resolved vs, st)
                    else then_p
                      (each_p (\<lambda>versionToMigrate. migrateTo m fs
                                 \<lparr>mt_version = versionToMigrate, mt_only = onlyFile options,
                                  mt_skip = None, mt_hooks = hks\<rparr>) vs st)
                      (\<lambda>u. Pair (Resolved vs))))
         (\<lambda>vs st. if vs = [] then (Resolved (), st) else run_hook (after hks) [AfterHook] st))"
  proof (rule then_p_resolves[OF c5])
    fix a s assume a: "a = [V]" and s: "?Q1 s"
    have "resolves (\<lambda>u. True) ?Q1 (run_hook (after hks) [AfterHook] s)"
      by (rule run_hook_resolves[OF s quiet(5)]) simp
    then show "resolves (\<lambda>u. True) ?Q1
        (if a = [] then (Resolved (), s) else run_hook (after hks) [AfterHook] s)"
      by (simp add: a)
  qed
  show ?thesis
    unfolding migrate_tasks_def
    by (rule catch_p_resolves, rule then_p_resolves[OF c6]) (simp add: unlock_resolves)
qed

text \<open>
  \<^verbatim>\<open>migrateTo\<close> reads \<^verbatim>\<open>options.only || null\<close>, and \<^verbatim>\<open>migrate\<close> drops \<^verbatim>\<open>only\<close> when no version is
  requested.
\<close>

lemma select_tasks_or_null:
  assumes "or_null only1 = or_null only2"
  shows "select_tasks only1 skip ts = select_tasks only2 skip ts"
  using assms by (simp add: select_tasks_def)

lemma migrateTo_or_null:
  assumes "or_null (mt_only o1) = or_null (mt_only o2)" and "mt_version o1 = mt_version o2"
    and "mt_skip o1 = mt_skip o2" and "mt_hooks o1 = mt_hooks o2"
  shows "migrateTo m fs o1 = migrateTo m fs o2"
proof -
  have sel: "select_tasks (mt_only o1) (mt_skip o1) = select_tasks (mt_only o2) (mt_skip o2)"
    using select_tasks_or_null[OF assms(1)] assms(3) by auto
  show ?thesis
    unfolding migrateTo_def sel assms(2) assms(4) by (rule refl)
qed

lemma only_without_version:
  assumes "\<not> truthy (mo_version opts)"
  shows "migrate m fs opts s = migrate m fs (opts\<lparr>mo_only := None\<rparr>) s"
proof -
  have eq: "or_null (onlyFile opts) = or_null (onlyFile (opts\<lparr>mo_only := None\<rparr>))"
    using assms by (auto simp: onlyFile_def or_null_def split: option.splits)
  have mt: "(\<lambda>v. migrateTo m fs \<lparr>mt_version = v, mt_only = onlyFile opts, mt_skip = None, mt_hooks = hks\<rparr>)
      = (\<lambda>v. migrateTo m fs \<lparr>mt_version = v, mt_only = onlyFile (opts\<lparr>mo_only := None\<rparr>), mt_skip = None,
              mt_hooks = hks\<rparr>)" for hks
    by (rule ext, rule migrateTo_or_null) (simp_all add: eq)
  have fr: "find_requested (opts\<lparr>mo_only := None\<rparr>) = find_requested opts"
    by (rule ext, rule ext) (simp add: find_requested_def)
  have tasks: "migrate_tasks m fs (opts\<lparr>mo_only := None\<rparr>) hks = migrate_tasks m fs opts hks" for hks
    unfolding migrate_tasks_def fr mt[of hks] by simp
  have "migrate_run m fs (opts\<lparr>mo_only := None\<rparr>) = migrate_run m fs opts"
    by (rule ext) (simp add: migrate_run_def tasks)
  then show ?thesis
    by (simp add: migrate_def)
qed

text \<open>
  Where the requested version is the only one that is due. Let a version \<open>V\<close> other than
  init be requested with \<^verbatim>\<open>only = n\<close>, \<open>n\<close> at least 1, in a database whose two bookkeeping
  tables exist; let \<open>V\<close> be the one version the integrity check leaves with differing
  counts, with at least \<open>n\<close> task files, the \<open>n\<close>-th of them not recorded under \<open>V\<close>; let
  that task and the hooks resolve and leave the bookkeeping tables alone. Then \<^verbatim>\<open>migrate\<close>
  (without the \<^verbatim>\<open>init\<close> option) calls the body of the \<open>n\<close>-th task and of no other, adds
  its row and no other to the ledger, and resolves unless the shutdown hook rejects. And
  when no version is requested, \<^verbatim>\<open>migrate\<close> with \<^verbatim>\<open>only\<close> is \<^verbatim>\<open>migrate\<close> without it.
\<close>

lemma only_runs_the_nth_task:
  "(mo_version options = Some V \<and> V \<noteq> [] \<and> V \<noteq> ''init'' \<and> mo_only options = Some n \<and> 0 < n
      \<and> \<not> mo_init options
      \<and> migrations (db st) = Some rows \<and> migrations_lock (db st) \<noteq> None
      \<and> fst (integrityCheck m fs (mo_force options) (db st)) = Inr result
      \<and> versionsToMigrate result = [V]
      \<and> version_dir fs V = Some ts \<and> n \<le> length ts
      \<and> \<not> list_ex (\<lambda>r. row_name r = task_name (ts ! (n - 1)) \<and> row_version r = V) rows
      \<and> quiet_task (ts ! (n - 1))
      \<and> quiet_hook (before (migrate_hooks m)) \<and> quiet_hook (beforeEach (migrate_hooks m))
      \<and> quiet_hook (afterEach (migrate_hooks m)) \<and> quiet_hook (after (migrate_hooks m))
    \<longrightarrow> migrations (db (snd (migrate m fs options st)))
          = Some (rows @ [\<lparr>row_name = task_name (ts ! (n - 1)), row_version = V,
                           row_currentVersion = currentVersion m\<rparr>])
        \<and> filter is_Running (trace (snd (migrate m fs options st)))
          = filter is_Running (trace st) @ [Running (task_name (ts ! (n - 1)))]
        \<and> fst (migrate m fs options st)
          = (case shutdown (migrate_hooks m) of Some (Rejected err) \<Rightarrow> Rejected err | _ \<Rightarrow> Resolved ()))
   \<and> (\<not> truthy (mo_version options)
      \<longrightarrow> migrate m fs options st = migrate m fs (options\<lparr>mo_only := None\<rparr>) st)"
proof (intro conjI impI)
  assume H: "mo_version options = Some V \<and> V \<noteq> [] \<and> V \<noteq> ''init'' \<and> mo_only options = Some n \<and> 0 < n
      \<and> \<not> mo_init options
      \<and> migrations (db st) = Some rows \<and> migrations_lock (db st) \<noteq> None
      \<and> fst (integrityCheck m fs (mo_force options) (db st)) = Inr result
      \<and> versionsToMigrate result = [V]
      \<and> version_dir fs V = Some ts \<and> n \<le> length ts
      \<and> \<not> list_ex (\<lambda>r. row_name r = task_name (ts ! (n - 1)) \<and> row_version r = V) rows
      \<and> quiet_task (ts ! (n - 1))
      \<and> quiet_hook (before (migrate_hooks m)) \<and> quiet_hook (beforeEach (migrate_hooks m))
      \<and> quiet_hook (afterEach (migrate_hooks m)) \<and> quiet_hook (after (migrate_hooks m))"
  define row where "row = \<lparr>row_name = task_name (ts ! (n - 1)), row_version = V,
                           row_currentVersion = currentVersion m\<rparr>"
  define p where "p = migrate_tasks m fs options (migrate_hooks m) st"
  have h: "mo_version options = Some V" "V \<noteq> []" "V \<noteq> ''init''" "mo_only options = Some n" "0 < n"
    "\<not> mo_init options" "migrations (db st) = Some rows" "migrations_lock (db st) \<noteq> None"
    "fst (integrityCheck m fs (mo_force options) (db st)) = Inr result"
    "versionsToMigrate result = [V]" "version_dir fs V = Some ts" "n \<le> length ts"
    "\<not> list_ex (\<lambda>r. row_name r = task_name (ts ! (n - 1)) \<and> row_version r = V) rows"
    "quiet_task (ts ! (n - 1))"
    "quiet_hook (before (migrate_hooks m))" "quiet_hook (beforeEach (migrate_hooks m))"
    "quiet_hook (afterEach (migrate_hooks m))" "quiet_hook (after (migrate_hooks m))"
    using H by simp_all
  have "resolves (\<lambda>u. True) (books (rows @ [row]) [Running (task_name (ts ! (n - 1)))] st) p"
    unfolding p_def row_def by (rule migrate_tasks_resolves[OF h(1-5) h(7-18)])
  then have p: "fst p = Resolved ()" "migrations (db (snd p)) = Some (rows @ [row])"
    "filter is_Running (trace (snd p)) = filter is_Running (trace st) @ [Running (task_name (ts ! (n - 1)))]"
    by (simp_all add: resolves_def books_def)
  have ct: "createTransaction (migrate_tasks m fs options (migrate_hooks m)) st = (Resolved (), snd p)"
    using p(1) by (cases p) (simp add: createTransaction_def p_def[symmetric])
  have run: "migrate m fs options st = finally_p (migrate_hooks m) (Resolved (), snd p)"
    using h(6) by (simp add: migrate_def migrate_run_def ct)
  show "migrations (db (snd (migrate m fs options st)))
          = Some (rows @ [\<lparr>row_name = task_name (ts ! (n - 1)), row_version = V,
                           row_currentVersion = currentVersion m\<rparr>])"
    using p(2) by (simp add: run finally_p_def emit_def row_def split: option.splits settled.splits)
  show "filter is_Running (trace (snd (migrate m fs options st)))
          = filter is_Running (trace st) @ [Running (task_name (ts ! (n - 1)))]"
    using p(3) by (simp add: run finally_p_def emit_def split: option.splits settled.splits)
  show "fst (migrate m fs options st)
          = (case shutdown (migrate_hooks m) of Some (Rejected err) \<Rightarrow> Rejected err | _ \<Rightarrow> Resolved ())"
    by (simp add: run finally_p_def split: option.splits settled.splits)
next
  assume "\<not> truthy (mo_version options)"
  then show "migrate m fs options st = migrate m fs (options\<lparr>mo_only := None\<rparr>) st"
    by (rule only_without_version)
qed

lemma scan_folders_second_recorded:
  "scan_folders migrator_1_1 fs_two_versions False second_recorded_db
     = \<lparr>futureVersions = [],
        operations = [(''init'', where_version second_recorded_db ''init''),
                      (''0.9'', where_version second_recorded_db ''0.9''),
                      (''1.1'', where_version second_recorded_db ''1.1'')],
        warnings = []\<rparr>"
  by (simp add: scan_folders_def folders_of_def readFolders_def fs_two_versions_def scan_folder_def
      migrator_1_1_def match_1_1 match_0_9 not_gt_1_1_1_1 not_gt_1_1_0_9)

lemma toReturn_counts_second_recorded:
  "toReturn_counts migrator_1_1 fs_two_versions False second_recorded_db
     = Inr [(''init'', \<lparr>expected = 1, actual = 1\<rparr>), (''0.9'', \<lparr>expected = 0, actual = 0\<rparr>),
            (''1.1'', \<lparr>expected = 2, actual = 1\<rparr>)]"
  unfolding toReturn_counts_def scan_folders_second_recorded
  by (simp add: where_version_def select_migrations_def
      second_recorded_db_def ledger_row_def own_keys_order_def expected_of_def readTasks_init_def
      readTasks_version_def init_baseline_def fs_two_versions_def not_index_1_1 not_index_0_9
      gt_1_0_1_1 not_gt_1_0_0_9)

lemma integrityCheck_second_recorded:
  "integrityCheck migrator_1_1 fs_two_versions False second_recorded_db
     = (Inr [(''init'', \<lparr>expected = 1, actual = 1\<rparr>), (''0.9'', \<lparr>expected = 0, actual = 0\<rparr>),
             (''1.1'', \<lparr>expected = 2, actual = 1\<rparr>)], [])"
  by (simp add: integrityCheck_def toReturn_counts_second_recorded scan_folders_second_recorded)

lemma versionsToMigrate_second_recorded:
  "versionsToMigrate [(''init'', \<lparr>expected = 1, actual = 1\<rparr>), (''0.9'', \<lparr>expected = 0, actual = 0\<rparr>),
             (''1.1'', \<lparr>expected = 2, actual = 1\<rparr>)] = [''1.1'']"
  by (simp add: versionsToMigrate_def own_keys_order_def not_index_1_1 not_index_0_9)

lemma migrateTo_second_recorded:
  "migrateTo migrator_1_1 fs_two_versions
      \<lparr>mt_version = ''1.1'', mt_only = Some 2, mt_skip = None, mt_hooks = no_hooks\<rparr>
      \<lparr>db = second_recorded_db, trace = tr\<rparr>
     = (Resolved (), \<lparr>db = second_recorded_db, trace = tr @ [MigrateTo ''1.1'' 1, Skipping ''2-y'']\<rparr>)"
  by (simp add: migrateTo_def read_tasks_for_def readTasks_version_def fs_two_versions_def select_tasks_def
      or_null_def executeTask_def task_chain_def beforeEachTask_def query_def select_migrations_def
      second_recorded_db_def ledger_row_def insert_task_def emit_def)

lemma migrate_tasks_second_recorded:
  "migrate_tasks migrator_1_1 fs_two_versions only_second no_hooks \<lparr>db = second_recorded_db, trace = []\<rparr>
     = (Resolved (),
        \<lparr>db = second_recorded_db\<lparr>migrations_lock := Some [km01 None (Some 7)]\<rparr>,
         trace = [Lock, LockData [km01 None None], MigrateTo ''1.1'' 1, Skipping ''2-y'', Unlock]\<rparr>)"
proof -
  have only: "onlyFile only_second = Some 2"
    by (simp add: onlyFile_def only_second_def or_null_def truthy_def)
  have force: "mo_force only_second = False"
    by (simp add: only_second_def)
  have lock: "lock \<lparr>db = second_recorded_db, trace = tr\<rparr>
     = (Resolved (), \<lparr>db = second_recorded_db, trace = tr @ [Lock, LockData [km01 None None]]\<rparr>)" for tr
    by (simp add: lock_def query_def select_lock_def second_recorded_db_def km01_def emit_def)
  have unlock: "unlock migrator_1_1 \<lparr>db = second_recorded_db, trace = tr\<rparr>
      = (Resolved (),
         \<lparr>db = second_recorded_db\<lparr>migrations_lock := Some [km01 None (Some 7)]\<rparr>, trace = tr @ [Unlock]\<rparr>)" for tr
    by (simp add: unlock_def statement_def update_released_at_def second_recorded_db_def km01_def emit_def
        migrator_1_1_def)
  define result where "result = [(''init'', \<lparr>expected = 1, actual = 1\<rparr>), (''0.9'', \<lparr>expected = 0, actual = 0\<rparr>),
             (''1.1'', \<lparr>expected = 2, actual = (1::nat)\<rparr>)]"
  have step2: "integrityCheck_p migrator_1_1 fs_two_versions False \<lparr>db = second_recorded_db, trace = tr\<rparr>
      = (Resolved result, \<lparr>db = second_recorded_db, trace = tr\<rparr>)" for tr
    by (simp add: integrityCheck_p_def integrityCheck_second_recorded emit_def result_def)
  have step3: "find_requested only_second result s = (Resolved [''1.1''], s)" for s
    unfolding find_requested_def result_def versionsToMigrate_second_recorded by (simp add: only_second_def)
  have nh: "before no_hooks = None" "after no_hooks = None"
    by (simp_all add: no_hooks_def)
  show ?thesis
    unfolding migrate_tasks_def lock force only
    by (simp add: step2 step3 run_hook_def nh migrateTo_second_recorded unlock)
qed

text \<open>
  A task that is recorded already is skipped under \<^verbatim>\<open>only\<close> as everywhere, as when the same
  command runs a second time. Version 1.1 is requested with \<^verbatim>\<open>only = 2\<close>, has two task
  files and is due, its first task never having run; the second task is skipped by the
  pre-check: no task body is called and the ledger stays as it was.
\<close>

lemma only_second_already_recorded:
  "mo_version only_second = Some ''1.1'' \<and> mo_only only_second = Some 2
   \<and> version_dir fs_two_versions ''1.1'' = Some [insert_task ''1-x'', insert_task ''2-y'']
   \<and> fst (integrityCheck migrator_1_1 fs_two_versions False second_recorded_db)
       = Inr [(''init'', \<lparr>expected = 1, actual = 1\<rparr>), (''0.9'', \<lparr>expected = 0, actual = 0\<rparr>),
              (''1.1'', \<lparr>expected = 2, actual = 1\<rparr>)]
   \<and> migrate migrator_1_1 fs_two_versions only_second \<lparr>db = second_recorded_db, trace = []\<rparr>
       = (Resolved (),
          \<lparr>db = second_recorded_db\<lparr>migrations_lock := Some [km01 None (Some 7)]\<rparr>,
           trace = [Lock, LockData [km01 None None], MigrateTo ''1.1'' 1, Skipping ''2-y'', Unlock,
                    DestroyConnection]\<rparr>)"
proof -
  have hk: "migrate_hooks migrator_1_1 = no_hooks" and init: "\<not> mo_init only_second"
    by (simp_all add: migrator_1_1_def only_second_def)
  have sh: "shutdown no_hooks = None"
    by (simp add: no_hooks_def)
  have "migrate migrator_1_1 fs_two_versions only_second \<lparr>db = second_recorded_db, trace = []\<rparr>
       = (Resolved (),
          \<lparr>db = second_recorded_db\<lparr>migrations_lock := Some [km01 None (Some 7)]\<rparr>,
           trace = [Lock, LockData [km01 None None], MigrateTo ''1.1'' 1, Skipping ''2-y'', Unlock,
                    DestroyConnection]\<rparr>)"
    unfolding migrate_def migrate_run_def hk createTransaction_def migrate_tasks_second_recorded
    by (simp add: init finally_p_def sh emit_def)
  moreover have "fst (integrityCheck migrator_1_1 fs_two_versions False second_recorded_db)
       = Inr [(''init'', \<lparr>expected = 1, actual = 1\<rparr>), (''0.9'', \<lparr>expected = 0, actual = 0\<rparr>),
              (''1.1'', \<lparr>expected = 2, actual = 1\<rparr>)]"
    by (simp add: integrityCheck_second_recorded)
  moreover have "mo_version only_second = Some ''1.1''" "mo_only only_second = Some 2"
    by (simp_all add: only_second_def)
  moreover have "version_dir fs_two_versions ''1.1'' = Some [insert_task ''1-x'', insert_task ''2-y'']"
    by (simp add: fs_two_versions_def)
  ultimately show ?thesis
    by (intro conjI)
qed

text \<open>
  The same at a concrete run: initialised at 1.0, version 1.1 requested with
  \<^verbatim>\<open>only = 2\<close>; and \<^verbatim>\<open>only = 2\<close> with no version requested.
\<close>

lemma only_runs_the_nth_task_at_1_1:
  "migrations (db (snd (migrate migrator_1_1 fs_two_versions only_second st_start)))
     = Some [ledger_row ''1-a'' ''init'' ''1.0'', ledger_row ''2-y'' ''1.1'' ''1.1'']
   \<and> filter is_Running (trace (snd (migrate migrator_1_1 fs_two_versions only_second st_start)))
     = [Running ''2-y'']
   \<and> fst (migrate migrator_1_1 fs_two_versions only_second st_start) = Resolved ()
   \<and> migrate migrator_1_1 fs_two_versions
        \<lparr>mo_version = None, mo_only = Some 2, mo_force = False, mo_init = False\<rparr> st_start
     = migrate migrator_1_1 fs_two_versions plain_migrate st_start"
proof -
  have ic: "fst (integrityCheck migrator_1_1 fs_two_versions (mo_force only_second) (db st_start))
      = Inr [(''init'', \<lparr>expected = 1, actual = 1\<rparr>), (''0.9'', \<lparr>expected = 0, actual = 0\<rparr>),
             (''1.1'', \<lparr>expected = 2, actual = 0\<rparr>)]"
    by (simp add: only_second_def st_start_def integrityCheck_two_versions)
  have hk: "quiet_hook (before (migrate_hooks migrator_1_1))" "quiet_hook (beforeEach (migrate_hooks migrator_1_1))"
    "quiet_hook (afterEach (migrate_hooks migrator_1_1))" "quiet_hook (after (migrate_hooks migrator_1_1))"
    "shutdown (migrate_hooks migrator_1_1) = None"
    by (simp_all add: migrator_1_1_def no_hooks_def quiet_hook_def)
  have task: "quiet_task (insert_task ''2-y'')"
    by (simp add: quiet_task_def insert_task_def raw_insert_def)
  have tables: "migrations (db st_start) = Some [ledger_row ''1-a'' ''init'' ''1.0'']"
    "migrations_lock (db st_start) \<noteq> None" "trace st_start = []"
    by (simp_all add: st_start_def initialised_db_def)
  have files: "version_dir fs_two_versions ''1.1'' = Some [insert_task ''1-x'', insert_task ''2-y'']"
    by (simp add: fs_two_versions_def)
  have opts: "mo_version only_second = Some ''1.1''" "mo_only only_second = Some 2" "\<not> mo_init only_second"
    by (simp_all add: only_second_def)
  have names: "task_name (insert_task ''2-y'') = ''2-y''" "currentVersion migrator_1_1 = ''1.1''"
    by (simp_all add: insert_task_def migrator_1_1_def)
  have first: "migrations (db (snd (migrate migrator_1_1 fs_two_versions only_second st_start)))
     = Some [ledger_row ''1-a'' ''init'' ''1.0'', ledger_row ''2-y'' ''1.1'' ''1.1'']
   \<and> filter is_Running (trace (snd (migrate migrator_1_1 fs_two_versions only_second st_start)))
     = [Running ''2-y'']
   \<and> fst (migrate migrator_1_1 fs_two_versions only_second st_start) = Resolved ()"
    using only_runs_the_nth_task[of only_second "''1.1''" 2 st_start "[ledger_row ''1-a'' ''init'' ''1.0'']"
        migrator_1_1 fs_two_versions _ "[insert_task ''1-x'', insert_task ''2-y'']", THEN conjunct1]
      ic hk task tables files opts versionsToMigrate_two_versions
    by (simp add: names ledger_row_def)
  have second: "migrate migrator_1_1 fs_two_versions
        \<lparr>mo_version = None, mo_only = Some 2, mo_force = False, mo_init = False\<rparr> st_start
     = migrate migrator_1_1 fs_two_versions plain_migrate st_start"
    using only_runs_the_nth_task[of "\<lparr>mo_version = None, mo_only = Some 2, mo_force = False, mo_init = False\<rparr>"
        _ _ st_start _ migrator_1_1 fs_two_versions, THEN conjunct2]
    by (simp add: truthy_def plain_migrate_def)
  show ?thesis
    using first second by simp
qed

text \<open>
  The requested version does not restrict the run. In \<^verbatim>\<open>migrate\<close> the loop that compares
  each version of the result with the requested one only returns from its callback, and
  the next loop collects every version with differing counts; each of them is handed to
  \<^verbatim>\<open>migrateTo\<close> with the same \<^verbatim>\<open>only\<close>.
\<close>

lemma match_1_0: "match_version ''1.0'' = Some ''1.0''"
  by (simp add: match_version_def is_version_char_def is_digit_def)

lemma not_index_1_0: "\<not> is_array_index ''1.0''"
  by (simp add: is_array_index_def is_digit_def)

lemma not_gt_1_1_1_0: "\<not> isGreaterThanVersion ''1.1'' ''1.0''"
  by (simp add: isGreaterThanVersion_def version_components_def match_version_def is_version_char_def
      is_digit_def digits_val_def digit_val_def)

lemma gt_0_9_1_0: "isGreaterThanVersion ''0.9'' ''1.0''"
  by (simp add: isGreaterThanVersion_def version_components_def match_version_def is_version_char_def
      is_digit_def digits_val_def digit_val_def)

lemma gt_0_9_1_1: "isGreaterThanVersion ''0.9'' ''1.1''"
  by (simp add: isGreaterThanVersion_def version_components_def match_version_def is_version_char_def
      is_digit_def digits_val_def digit_val_def)

lemma scan_folders_two_due:
  "scan_folders migrator_1_1 fs_two_due False initialised_0_9_db
     = \<lparr>futureVersions = [],
        operations = [(''init'', where_version initialised_0_9_db ''init''),
                      (''1.0'', where_version initialised_0_9_db ''1.0''),
                      (''1.1'', where_version initialised_0_9_db ''1.1'')],
        warnings = []\<rparr>"
  by (simp add: scan_folders_def folders_of_def readFolders_def fs_two_due_def scan_folder_def
      migrator_1_1_def match_1_1 match_1_0 not_gt_1_1_1_1 not_gt_1_1_1_0)

lemma toReturn_counts_two_due:
  "toReturn_counts migrator_1_1 fs_two_due False initialised_0_9_db
     = Inr [(''init'', \<lparr>expected = 1, actual = 1\<rparr>), (''1.0'', \<lparr>expected = 2, actual = 0\<rparr>),
            (''1.1'', \<lparr>expected = 2, actual = 0\<rparr>)]"
  unfolding toReturn_counts_def scan_folders_two_due
  by (simp add: where_version_def select_migrations_def
      initialised_0_9_db_def ledger_row_def own_keys_order_def expected_of_def readTasks_init_def
      readTasks_version_def init_baseline_def fs_two_due_def not_index_1_1 not_index_1_0
      gt_0_9_1_0 gt_0_9_1_1)

lemma integrityCheck_two_due:
  "integrityCheck migrator_1_1 fs_two_due False initialised_0_9_db
     = (Inr [(''init'', \<lparr>expected = 1, actual = 1\<rparr>), (''1.0'', \<lparr>expected = 2, actual = 0\<rparr>),
             (''1.1'', \<lparr>expected = 2, actual = 0\<rparr>)], [])"
  by (simp add: integrityCheck_def toReturn_counts_two_due scan_folders_two_due)

lemma versionsToMigrate_two_due:
  "versionsToMigrate [(''init'', \<lparr>expected = 1, actual = 1\<rparr>), (''1.0'', \<lparr>expected = 2, actual = 0\<rparr>),
             (''1.1'', \<lparr>expected = 2, actual = 0\<rparr>)] = [''1.0'', ''1.1'']"
  by (simp add: versionsToMigrate_def own_keys_order_def not_index_1_1 not_index_1_0)

lemma migrateTo_two_due_1_0:
  "migrateTo migrator_1_1 fs_two_due
      \<lparr>mt_version = ''1.0'', mt_only = Some 1, mt_skip = None, mt_hooks = no_hooks\<rparr>
      \<lparr>db = initialised_0_9_db, trace = tr\<rparr>
     = (Resolved (),
        \<lparr>db = \<lparr>migrations = Some [ledger_row ''1-a'' ''init'' ''0.9'', ledger_row ''1-p'' ''1.0'' ''1.1''],
               migrations_lock = Some [km01 None None],
               tables = [(''log'', [''1-a'', ''1-p''])]\<rparr>,
         trace = tr @ [MigrateTo ''1.0'' 1, Running ''1-p'']\<rparr>)"
  by (simp add: migrateTo_def read_tasks_for_def readTasks_version_def fs_two_due_def select_tasks_def
      or_null_def executeTask_def task_chain_def beforeEachTask_def afterEachTask_def query_def
      statement_def user_code_def run_hook_def no_hooks_def select_migrations_def insert_migration_def
      initialised_0_9_db_def ledger_row_def insert_task_def raw_insert_def migrator_1_1_def emit_def)

lemma migrateTo_two_due_1_1:
  "migrateTo migrator_1_1 fs_two_due
      \<lparr>mt_version = ''1.1'', mt_only = Some 1, mt_skip = None, mt_hooks = no_hooks\<rparr>
      \<lparr>db = \<lparr>migrations = Some [ledger_row ''1-a'' ''init'' ''0.9'', ledger_row ''1-p'' ''1.0'' ''1.1''],
             migrations_lock = Some [km01 None None],
             tables = [(''log'', [''1-a'', ''1-p''])]\<rparr>,
       trace = tr\<rparr>
     = (Resolved (),
        \<lparr>db = \<lparr>migrations = Some [ledger_row ''1-a'' ''init'' ''0.9'', ledger_row ''1-p'' ''1.0'' ''1.1'',
                                   ledger_row ''1-x'' ''1.1'' ''1.1''],
               migrations_lock = Some [km01 None None],
               tables = [(''log'', [''1-a'', ''1-p'', ''1-x''])]\<rparr>,
         trace = tr @ [MigrateTo ''1.1'' 1, Running ''1-x'']\<rparr>)"
  by (simp add: migrateTo_def read_tasks_for_def readTasks_version_def fs_two_due_def select_tasks_def
      or_null_def executeTask_def task_chain_def beforeEachTask_def afterEachTask_def query_def
      statement_def user_code_def run_hook_def no_hooks_def select_migrations_def insert_migration_def
      ledger_row_def insert_task_def raw_insert_def migrator_1_1_def emit_def)

lemma migrate_tasks_two_due:
  "migrate_tasks migrator_1_1 fs_two_due only_first no_hooks \<lparr>db = initialised_0_9_db, trace = []\<rparr>
     = (Resolved (),
        \<lparr>db = \<lparr>migrations = Some [ledger_row ''1-a'' ''init'' ''0.9'', ledger_row ''1-p'' ''1.0'' ''1.1'',
                                   ledger_row ''1-x'' ''1.1'' ''1.1''],
               migrations_lock = Some [km01 None (Some 7)],
               tables = [(''log'', [''1-a'', ''1-p'', ''1-x''])]\<rparr>,
         trace = [Lock, LockData [km01 None None], MigrateTo ''1.0'' 1, Running ''1-p'',
                  MigrateTo ''1.1'' 1, Running ''1-x'', Unlock]\<rparr>)"
proof -
  have only: "onlyFile only_first = Some 1"
    by (simp add: onlyFile_def only_first_def or_null_def truthy_def)
  have force: "mo_force only_first = False"
    by (simp add: only_first_def)
  have lock: "lock \<lparr>db = initialised_0_9_db, trace = tr\<rparr>
     = (Resolved (), \<lparr>db = initialised_0_9_db, trace = tr @ [Lock, LockData [km01 None None]]\<rparr>)" for tr
    by (simp add: lock_def query_def select_lock_def initialised_0_9_db_def km01_def emit_def)
  have unlock: "unlock migrator_1_1
        \<lparr>db = \<lparr>migrations = rows, migrations_lock = Some [km01 None None], tables = tbs\<rparr>, trace = tr\<rparr>
      = (Resolved (),
         \<lparr>db = \<lparr>migrations = rows, migrations_lock = Some [km01 None (Some 7)], tables = tbs\<rparr>,
          trace = tr @ [Unlock]\<rparr>)" for rows tbs tr
    by (simp add: unlock_def statement_def update_released_at_def km01_def emit_def migrator_1_1_def)
  define result where "result = [(''init'', \<lparr>expected = 1, actual = 1\<rparr>), (''1.0'', \<lparr>expected = 2, actual = 0\<rparr>),
             (''1.1'', \<lparr>expected = 2, actual = (0::nat)\<rparr>)]"
  have step2: "integrityCheck_p migrator_1_1 fs_two_due False \<lparr>db = initialised_0_9_db, trace = tr\<rparr>
      = (Resolved result, \<lparr>db = initialised_0_9_db, trace = tr\<rparr>)" for tr
    by (simp add: integrityCheck_p_def integrityCheck_two_due emit_def result_def)
  have step3: "find_requested only_first result s = (Resolved [''1.0'', ''1.1''], s)" for s
    unfolding find_requested_def result_def versionsToMigrate_two_due by (simp add: only_first_def)
  have nh: "before no_hooks = None" "after no_hooks = None"
    by (simp_all add: no_hooks_def)
  have one: "Some (Suc 0) = Some 1"
    by simp
  show ?thesis
    unfolding migrate_tasks_def lock force only
    by (simp add: step2 step3 run_hook_def nh one migrateTo_two_due_1_0 migrateTo_two_due_1_1 unlock
        del: One_nat_def)
qed

text \<open>
  Claim C9 fails on the code. Initialised at 0.9, versions 1.0 and 1.1 are both due, each
  with two task files, none of them recorded. Version 1.1 is requested with \<^verbatim>\<open>only = 1\<close>:
  \<^verbatim>\<open>migrate\<close> calls the first task of version 1.0 and the first task of version 1.1, and
  adds two ledger rows, one of them under the version that was not requested.
\<close>

theorem only_runs_every_due_version:
  "mo_version only_first = Some ''1.1'' \<and> mo_only only_first = Some 1
   \<and> version_dir fs_two_due ''1.1'' = Some [insert_task ''1-x'', insert_task ''2-y'']
   \<and> migrations initialised_0_9_db = Some [ledger_row ''1-a'' ''init'' ''0.9'']
   \<and> migrate migrator_1_1 fs_two_due only_first \<lparr>db = initialised_0_9_db, trace = []\<rparr>
       = (Resolved (),
          \<lparr>db = \<lparr>migrations = Some [ledger_row ''1-a'' ''init'' ''0.9'', ledger_row ''1-p'' ''1.0'' ''1.1'',
                                     ledger_row ''1-x'' ''1.1'' ''1.1''],
                 migrations_lock = Some [km01 None (Some 7)],
                 tables = [(''log'', [''1-a'', ''1-p'', ''1-x''])]\<rparr>,
           trace = [Lock, LockData [km01 None None], MigrateTo ''1.0'' 1, Running ''1-p'',
                    MigrateTo ''1.1'' 1, Running ''1-x'', Unlock, DestroyConnection]\<rparr>)"
proof -
  have hk: "migrate_hooks migrator_1_1 = no_hooks" and init: "\<not> mo_init only_first"
    by (simp_all add: migrator_1_1_def only_first_def)
  have sh: "shutdown no_hooks = None"
    by (simp add: no_hooks_def)
  have "migrate migrator_1_1 fs_two_due only_first \<lparr>db = initialised_0_9_db, trace = []\<rparr>
       = (Resolved (),
          \<lparr>db = \<lparr>migrations = Some [ledger_row ''1-a'' ''init'' ''0.9'', ledger_row ''1-p'' ''1.0'' ''1.1'',
                                     ledger_row ''1-x'' ''1.1'' ''1.1''],
                 migrations_lock = Some [km01 None (Some 7)],
                 tables = [(''log'', [''1-a'', ''1-p'', ''1-x''])]\<rparr>,
           trace = [Lock, LockData [km01 None None], MigrateTo ''1.0'' 1, Running ''1-p'',
                    MigrateTo ''1.1'' 1, Running ''1-x'', Unlock, DestroyConnection]\<rparr>)"
    unfolding migrate_def migrate_run_def hk createTransaction_def migrate_tasks_two_due
    by (simp add: init finally_p_def sh emit_def)
  moreover have "mo_version only_first = Some ''1.1''" "mo_only only_first = Some 1"
    by (simp_all add: only_first_def)
  moreover have "version_dir fs_two_due ''1.1'' = Some [insert_task ''1-x'', insert_task ''2-y'']"
    by (simp add: fs_two_due_def)
  moreover have "migrations initialised_0_9_db = Some [ledger_row ''1-a'' ''init'' ''0.9'']"
    by (simp add: initialised_0_9_db_def)
  ultimately show ?thesis
    by (intro conjI)
qed
end
